theory Spec2Isabelle
  imports Main "HOL-Library.Char_ord" "HOL-Library.List_Lexorder"
begin

section \<open>Python values and strings\<close>

text \<open>
  The spreadsheet is loaded with \<^verbatim>\<open>dtype=str\<close>, so a cell is a string, the
  not-a-number float pandas puts in an empty cell, or \<^verbatim>\<open>None\<close>.
  Strings are lists of characters; the model covers the ASCII range of Python's
  \<^verbatim>\<open>str\<close> operations (whitespace, case mapping, decimal digits).
\<close>

datatype cell = CNone | CNaN | CStr string

datatype error = FileNotFoundError | IndexError | OSError

text \<open>\<^verbatim>\<open>str.isspace\<close> on one ASCII character: TAB..CR, FS..US and the space.\<close>

definition is_space :: "char \<Rightarrow> bool" where
  "is_space c = (c \<in> set [CHR 0x09, CHR 0x0A, CHR 0x0B, CHR 0x0C, CHR 0x0D,
                           CHR 0x1C, CHR 0x1D, CHR 0x1E, CHR 0x1F, CHR '' ''])"

definition is_digit :: "char \<Rightarrow> bool" where
  "is_digit c = (c \<in> set ''0123456789'')"

definition lower_char :: "char \<Rightarrow> char" where
  "lower_char c =
     (case map_of (zip ''ABCDEFGHIJKLMNOPQRSTUVWXYZ'' ''abcdefghijklmnopqrstuvwxyz'') c of
        Some d \<Rightarrow> d
      | None \<Rightarrow> c)"

definition py_lower :: "string \<Rightarrow> string" where
  "py_lower s = map lower_char s"

definition py_strip :: "string \<Rightarrow> string" where
  "py_strip s = rev (dropWhile is_space (rev (dropWhile is_space s)))"

definition startswith :: "string \<Rightarrow> string \<Rightarrow> bool" where
  "startswith s p = (take (length p) s = p)"

text \<open>\<^verbatim>\<open>sub in s\<close> for strings.\<close>

fun py_in :: "string \<Rightarrow> string \<Rightarrow> bool" where
  "py_in sub [] = (sub = [])"
| "py_in sub (c # cs) = (startswith (c # cs) sub \<or> py_in sub cs)"

text \<open>\<^verbatim>\<open>s.split(sep)\<close> for a one-character separator.\<close>

fun py_split :: "char \<Rightarrow> string \<Rightarrow> string list" where
  "py_split sep [] = [[]]"
| "py_split sep (c # cs) =
     (if c = sep then [] # py_split sep cs
      else (case py_split sep cs of
              [] \<Rightarrow> [[c]]
            | w # ws \<Rightarrow> (c # w) # ws))"

text \<open>\<^verbatim>\<open>sep.join(parts)\<close>.\<close>

fun py_join :: "string \<Rightarrow> string list \<Rightarrow> string" where
  "py_join sep [] = []"
| "py_join sep [w] = w"
| "py_join sep (w # v # ws) = w @ sep @ py_join sep (v # ws)"

text \<open>\<^verbatim>\<open>str(v)\<close> on a cell and on a column label that may be \<^verbatim>\<open>None\<close>.\<close>

fun py_str :: "cell \<Rightarrow> string" where
  "py_str CNone = ''None''"
| "py_str CNaN = ''nan''"
| "py_str (CStr s) = s"

fun str_opt :: "string option \<Rightarrow> string" where
  "str_opt None = ''None''"
| "str_opt (Some s) = s"

section \<open>Helpers of saf_converter.py\<close>

fun is_blank :: "cell \<Rightarrow> bool" where
  "is_blank CNone = True"
| "is_blank CNaN = True"
| "is_blank (CStr s) = (py_lower (py_strip s) \<in> set ['''', ''nan'', ''none''])"

definition basename_only :: "string \<Rightarrow> string" where
  "basename_only name = rev (takeWhile (\<lambda>c. c \<noteq> CHR ''/'') (rev (py_strip name)))"

definition norm_header :: "string option \<Rightarrow> string" where
  "norm_header h = py_strip (str_opt h)"

text \<open>\<^verbatim>\<open>re.sub(r"[\s_\-\.]+", "", str(h).strip().lower())\<close>: every character of the
  class is deleted.\<close>

definition norm_key_for_match :: "string \<Rightarrow> string" where
  "norm_key_for_match h =
     filter (\<lambda>c. \<not> (is_space c \<or> c \<in> set ''_-.'')) (py_lower (py_strip h))"

section \<open>HeaderDetector: find_header_row\<close>

text \<open>The two features computed for a scanned row: \<^verbatim>\<open>cells\<close>, \<^verbatim>\<open>has_filename\<close>
  and \<^verbatim>\<open>dc_count\<close> of the loop body.\<close>

definition row_cells :: "cell list \<Rightarrow> string list" where
  "row_cells row = map (\<lambda>x. py_strip (py_str x)) (filter (\<lambda>x. \<not> is_blank x) row)"

definition has_filename :: "cell list \<Rightarrow> bool" where
  "has_filename row = (\<exists>c \<in> set (row_cells row). py_in ''filename'' (norm_key_for_match c))"

definition dc_count :: "cell list \<Rightarrow> nat" where
  "dc_count row = length (filter (\<lambda>c. startswith c ''dc.'') (map py_lower (row_cells row)))"

text \<open>
  The scan loop. \<open>i\<close> is the index of the row at the head of the list, \<open>best_idx\<close> and
  \<open>best_dc_count\<close> are the loop's variables; the result is \<open>Inl i\<close> when the loop
  returns \<open>i\<close> from inside, and \<open>Inr (best_idx, best_dc_count)\<close> when it runs to the
  end.
\<close>

fun scan_rows :: "nat \<Rightarrow> nat option \<Rightarrow> int \<Rightarrow> cell list list \<Rightarrow> nat + (nat option \<times> int)" where
  "scan_rows i best_idx best_dc_count [] = Inr (best_idx, best_dc_count)"
| "scan_rows i best_idx best_dc_count (row # rows) =
     (if has_filename row \<and> dc_count row \<ge> 2 then Inl i
      else if int (dc_count row) > best_dc_count
           then scan_rows (Suc i) (Some i) (int (dc_count row)) rows
           else scan_rows (Suc i) best_idx best_dc_count rows)"

definition MAX_HEADER_SCAN :: nat where
  "MAX_HEADER_SCAN = 25"

text \<open>\<open>sheet\<close> is the raw sheet; \<^verbatim>\<open>read_excel(..., nrows=max_scan)\<close> keeps its first
  \<open>max_scan\<close> rows, indexed from 0.\<close>

definition find_header_row :: "cell list list \<Rightarrow> nat \<Rightarrow> nat" where
  "find_header_row sheet max_scan =
     (case scan_rows 0 None (-1) (take max_scan sheet) of
        Inl i \<Rightarrow> i
      | Inr (best_idx, best_dc_count) \<Rightarrow>
          (case best_idx of
             Some b \<Rightarrow> if best_dc_count > 0 then b else 0
           | None \<Rightarrow> 0))"

text \<open>A row the loop returns at once: it has a filename-like cell and at least two
  cells with the schema prefix.\<close>
definition header_candidate :: "cell list \<Rightarrow> bool" where
  "header_candidate row = (has_filename row \<and> 2 \<le> dc_count row)"

section \<open>ColumnMapper: is_dc_column, base_header, parse_dc\<close>

definition is_dc_column :: "string option \<Rightarrow> bool" where
  "is_dc_column col =
     (case col of
        None \<Rightarrow> False
      | Some c \<Rightarrow> startswith (py_lower (py_strip c)) ''dc.'')"

text \<open>
  \<^verbatim>\<open>re.sub(r"\.(\d+)$", "", col)\<close>. The pattern is anchored by \<^verbatim>\<open>$\<close>, which matches at
  the end of the string and also just before a newline that ends the string, so there
  is at most one match: a dot and a non-empty run of digits, either at the very end or
  before a final newline. \<open>numeric_suffix_at_end s\<close> is the text before such a match
  ending exactly at the end of \<open>s\<close>.
\<close>

definition numeric_suffix_at_end :: "string \<Rightarrow> string option" where
  "numeric_suffix_at_end s =
     (let r = rev s; ds = takeWhile is_digit r; rest = dropWhile is_digit r
      in if ds \<noteq> [] \<and> rest \<noteq> [] \<and> hd rest = CHR ''.'' then Some (rev (tl rest)) else None)"

definition base_header :: "string option \<Rightarrow> string" where
  "base_header col =
     (case col of
        None \<Rightarrow> []
      | Some s \<Rightarrow>
          (case numeric_suffix_at_end s of
             Some p \<Rightarrow> p
           | None \<Rightarrow>
               if s \<noteq> [] \<and> last s = CHR 0x0A
               then (case numeric_suffix_at_end (butlast s) of
                       Some p \<Rightarrow> p @ [CHR 0x0A]
                     | None \<Rightarrow> s)
               else s))"

definition parse_dc :: "string option \<Rightarrow> string option \<times> string option" where
  "parse_dc col =
     (case col of
        None \<Rightarrow> (None, None)
      | Some s \<Rightarrow>
          (let c = py_lower (py_strip s) in
           if \<not> startswith c ''dc.'' then (None, None)
           else (let parts = py_split (CHR ''.'') c in
                 if length parts = 2 then (Some (parts ! 1), None)
                 else if length parts \<ge> 3
                      then (Some (parts ! 1), Some (py_join ''.'' (drop 2 parts)))
                      else (None, None))))"

section \<open>RequiredFieldChecker: validate_required_fields\<close>

definition REQUIRED_FIELDS :: "string list" where
  "REQUIRED_FIELDS = [''title'', ''creator'', ''date.issued'']"

text \<open>\<^verbatim>\<open>xs[i]\<close> raises \<^verbatim>\<open>IndexError\<close> out of range.\<close>

definition py_index :: "'a list \<Rightarrow> nat \<Rightarrow> error + 'a" where
  "py_index xs i = (if i < length xs then Inr (xs ! i) else Inl IndexError)"

text \<open>
  The body of the inner loop for one \<open>(col, val)\<close> pair of the zip: \<open>Inr True\<close> when it
  sets \<^verbatim>\<open>found\<close> and breaks, \<open>Inr False\<close> when the loop goes on to the next pair,
  \<open>Inl e\<close> when an index expression raises.
\<close>

definition field_matches :: "string \<Rightarrow> string option \<Rightarrow> cell \<Rightarrow> error + bool" where
  "field_matches element col val =
     (if is_blank val then Inr False
      else (let col_base = base_header (Some (norm_header col)) in
            if \<not> is_dc_column (Some col_base) then Inr False
            else (case parse_dc (Some col_base) of
                    (element_name, qualifier) \<Rightarrow>
                      (case py_index (py_split (CHR ''.'') element) 0 of
                         Inl e \<Rightarrow> Inl e
                       | Inr e0 \<Rightarrow>
                           if element_name = Some e0
                           then (if CHR ''.'' \<in> set element
                                 then (case py_index (py_split (CHR ''.'') element) 1 of
                                         Inl e \<Rightarrow> Inl e
                                       | Inr e1 \<Rightarrow> Inr (qualifier = Some e1))
                                 else Inr True)
                           else Inr False))))"

fun scan_columns :: "string \<Rightarrow> (string option \<times> cell) list \<Rightarrow> error + bool" where
  "scan_columns element [] = Inr False"
| "scan_columns element ((col, val) # rest) =
     (case field_matches element col val of
        Inl e \<Rightarrow> Inl e
      | Inr found \<Rightarrow> if found then Inr True else scan_columns element rest)"

text \<open>The outer loop over the required specifiers, \<open>missing\<close> being the list built so far.\<close>

fun required_loop ::
  "string list \<Rightarrow> (string option \<times> cell) list \<Rightarrow> string list \<Rightarrow> error + string list" where
  "required_loop [] cvs missing = Inr missing"
| "required_loop (element # rest) cvs missing =
     (case scan_columns element cvs of
        Inl e \<Rightarrow> Inl e
      | Inr found \<Rightarrow>
          required_loop rest cvs (if found then missing else missing @ [element]))"

text \<open>\<open>required\<close> stands for \<^verbatim>\<open>Config.REQUIRED_FIELDS\<close>, which the source reads as a
  global.\<close>

definition validate_required_fields ::
  "string list \<Rightarrow> string option list \<Rightarrow> cell list \<Rightarrow> error + string list" where
  "validate_required_fields required columns row_values =
     required_loop required (zip columns row_values) []"

section \<open>MetadataWriter: write_dc_xml\<close>

text \<open>A \<^verbatim>\<open>dcvalue\<close> node of the document: its three attributes and its text.\<close>

record dcvalue =
  dc_element :: string
  dc_qualifier :: string
  dc_language :: string
  dc_text :: string

definition LANG_ATTR :: string where
  "LANG_ATTR = ''en''"

text \<open>\<^verbatim>\<open>qualifier or "none"\<close>: \<^verbatim>\<open>None\<close> and the empty string are both falsy.\<close>

definition or_none :: "string option \<Rightarrow> string" where
  "or_none q = (case q of None \<Rightarrow> ''none'' | Some s \<Rightarrow> if s = [] then ''none'' else s)"

text \<open>
  The loop over the zipped columns and values; \<open>nodes\<close> are the children of the root
  appended so far and \<open>seen\<close> is the set of triples.
\<close>

fun write_loop ::
  "(string option \<times> cell) list \<Rightarrow> dcvalue list \<Rightarrow> (string \<times> string \<times> string) set \<Rightarrow> dcvalue list"
where
  "write_loop [] nodes seen = nodes"
| "write_loop ((raw_col, val) # rest) nodes seen =
     (if is_blank val \<or> raw_col = None then write_loop rest nodes seen
      else (let base_col = base_header (Some (norm_header raw_col)) in
            if \<not> is_dc_column (Some base_col) then write_loop rest nodes seen
            else (case parse_dc (Some base_col) of
                    (None, qualifier) \<Rightarrow> write_loop rest nodes seen
                  | (Some element, qualifier) \<Rightarrow>
                      (let text = py_strip (py_str val) in
                       if text = [] then write_loop rest nodes seen
                       else (let trip = (element, or_none qualifier, text) in
                             if trip \<in> seen then write_loop rest nodes seen
                             else write_loop rest
                                    (nodes @ [\<lparr>dc_element = element,
                                               dc_qualifier = or_none qualifier,
                                               dc_language = LANG_ATTR,
                                               dc_text = text\<rparr>])
                                    (insert trip seen))))))"

text \<open>The document written to \<^verbatim>\<open>output_path\<close>, as the list of children of its root.\<close>

definition write_dc_xml :: "string option list \<Rightarrow> cell list \<Rightarrow> dcvalue list" where
  "write_dc_xml columns row_values = write_loop (zip columns row_values) [] {}"

definition triple_of :: "dcvalue \<Rightarrow> string \<times> string \<times> string" where
  "triple_of n = (dc_element n, dc_qualifier n, dc_text n)"

section \<open>The required-field rule as the specification words it\<close>

text \<open>
  A specifier is a bare element or \<open>element.qualifier\<close>: the element is the text
  before the first dot, the qualifier (when a dot is present) the text after it.
\<close>

definition specifier_parts :: "string \<Rightarrow> string \<times> string option" where
  "specifier_parts spec =
     (if CHR ''.'' \<in> set spec
      then (takeWhile (\<lambda>c. c \<noteq> CHR ''.'') spec,
            Some (tl (dropWhile (\<lambda>c. c \<noteq> CHR ''.'') spec)))
      else (spec, None))"

definition simple_specifier :: "string \<Rightarrow> bool" where
  "simple_specifier spec = (length (filter (\<lambda>c. c = CHR ''.'') spec) \<le> 1)"

text \<open>
  A column satisfies a specifier when its cell is non-blank, its base form is
  metadata-bearing and decomposes to the specifier's element and, if the specifier
  gives one, to its qualifier.
\<close>

definition column_satisfies :: "string \<Rightarrow> string option \<Rightarrow> cell \<Rightarrow> bool" where
  "column_satisfies spec col val =
     (let base = base_header (Some (norm_header col)) in
      \<not> is_blank val \<and> is_dc_column (Some base) \<and>
      fst (parse_dc (Some base)) = Some (fst (specifier_parts spec)) \<and>
      (case snd (specifier_parts spec) of
         None \<Rightarrow> True
       | Some q \<Rightarrow> snd (parse_dc (Some base)) = Some q))"

definition specifier_satisfied :: "string \<Rightarrow> string option list \<Rightarrow> cell list \<Rightarrow> bool" where
  "specifier_satisfied spec columns row_values =
     (\<exists>(col, val) \<in> set (zip columns row_values). column_satisfies spec col val)"

section \<open>FileAssociator: find_files_for_item\<close>

definition ALLOWED_FILE_EXTENSIONS :: "string list" where
  "ALLOWED_FILE_EXTENSIONS =
     [''.cr2'', ''.cr3'', ''.pdf'', ''.doc'', ''.docx'', ''.jpg'', ''.jpeg'', ''.png'', ''.gif'',
      ''.tiff'', ''.mp3'', ''.mp4'', ''.wav'', ''.avi'', ''.mov'', ''.mpeg'', ''.mpg'', ''.txt'',
      ''.rtf'', ''.xls'', ''.xlsx'', ''.zip'', ''.rar'', ''.7z'']"

text \<open>
  The bitstream directory: \<open>None\<close> when it does not exist, otherwise the names of its
  entries in the order \<^verbatim>\<open>iterdir()\<close> yields them. File names are compared exactly, as
  on a case-sensitive file system, and tokens are base names, as \<^verbatim>\<open>main\<close> produces them.
  \<^verbatim>\<open>(bitstreams_dir / fname).exists()\<close> also holds for the two dot entries of an
  existing directory.
\<close>

type_synonym directory = "string list option"

definition path_exists :: "directory \<Rightarrow> string \<Rightarrow> bool" where
  "path_exists d fname =
     (case d of
        None \<Rightarrow> False
      | Some entries \<Rightarrow> fname \<in> set entries \<or> fname = ''.'' \<or> fname = ''..'')"

text \<open>\<^verbatim>\<open>Path(fname).suffix\<close>: the text from the last dot on, when that dot is neither
  the first nor the last character of the name; otherwise empty.\<close>

definition path_suffix :: "string \<Rightarrow> string" where
  "path_suffix fname =
     (let after = takeWhile (\<lambda>c. c \<noteq> CHR ''.'') (rev fname) in
      if CHR ''.'' \<in> set fname \<and> after \<noteq> [] \<and> Suc (length after) < length fname
      then CHR ''.'' # rev after
      else [])"

text \<open>Strategy 2: the first entry that \<^verbatim>\<open>re.escape(fname)\<close> under \<^verbatim>\<open>re.IGNORECASE\<close>
  matches in full.\<close>

definition case_insensitive_match :: "string \<Rightarrow> string list \<Rightarrow> string option" where
  "case_insensitive_match fname entries = find (\<lambda>a. py_lower a = py_lower fname) entries"

text \<open>Strategy 3: the first allowed extension whose candidate exists.\<close>

fun probe_extensions :: "directory \<Rightarrow> string \<Rightarrow> string list \<Rightarrow> string option" where
  "probe_extensions d fname [] = None"
| "probe_extensions d fname (ext # exts) =
     (if path_exists d (fname @ ext) then Some (fname @ ext)
      else probe_extensions d fname exts)"

text \<open>
  The loop over the tokens, \<open>found_files\<close> being the list built so far. Enumerating a
  directory that does not exist raises \<^verbatim>\<open>FileNotFoundError\<close>. After strategy 1 the loop
  continues with the next token; after strategy 2 only the inner loop is left, and
  strategy 3 still runs.
\<close>

fun find_loop :: "directory \<Rightarrow> string list \<Rightarrow> string list \<Rightarrow> error + string list" where
  "find_loop d [] found_files = Inr found_files"
| "find_loop d (fname # rest) found_files =
     (if path_exists d fname then find_loop d rest (found_files @ [fname])
      else (case d of
              None \<Rightarrow> Inl FileNotFoundError
            | Some entries \<Rightarrow>
                (let found2 = (case case_insensitive_match fname entries of
                                 Some actual \<Rightarrow> found_files @ [actual]
                               | None \<Rightarrow> found_files);
                     found3 = (if path_suffix fname = []
                               then (case probe_extensions d fname ALLOWED_FILE_EXTENSIONS of
                                       Some candidate \<Rightarrow> found2 @ [candidate]
                                     | None \<Rightarrow> found2)
                               else found2)
                 in find_loop d rest found3)))"

text \<open>\<open>filenames\<close> is the set of tokens, as the list of its elements in the order the
  loop visits them.\<close>

definition find_files_for_item :: "string list \<Rightarrow> directory \<Rightarrow> error + string list" where
  "find_files_for_item filenames bitstreams_dir = find_loop bitstreams_dir filenames []"

section \<open>RecordPipeline: main\<close>

definition detect_filename_columns :: "string list \<Rightarrow> string list" where
  "detect_filename_columns columns =
     filter (\<lambda>c. let key = norm_key_for_match c in
                 py_in ''filename'' key \<or> py_in ''file'' key \<or> py_in ''bitstream'' key) columns"

text \<open>\<^verbatim>\<open>re.split(r"[;\n|,]+", s)\<close>: the pieces between maximal runs of separators; \<open>in_sep\<close>
  tells that the previous character was a separator.\<close>

definition is_sep :: "char \<Rightarrow> bool" where
  "is_sep c = (c \<in> set [CHR '';'', CHR 0x0A, CHR ''|'', CHR '',''])"

fun re_split_seps :: "bool \<Rightarrow> string \<Rightarrow> string list" where
  "re_split_seps in_sep [] = [[]]"
| "re_split_seps in_sep (c # cs) =
     (if is_sep c
      then (if in_sep then re_split_seps True cs else [] # re_split_seps True cs)
      else (case re_split_seps False cs of
              [] \<Rightarrow> [[c]]
            | w # ws \<Rightarrow> (c # w) # ws))"

text \<open>\<^verbatim>\<open>row.get(col, "")\<close>, the columns of the frame being distinct.\<close>

definition row_get :: "string list \<Rightarrow> cell list \<Rightarrow> string \<Rightarrow> cell" where
  "row_get columns row col =
     (case map_of (zip columns row) col of
        Some v \<Rightarrow> v
      | None \<Rightarrow> CStr [])"

text \<open>The tokens of one cell added to the set \<open>filenames\<close>, kept as a duplicate-free list.\<close>

fun add_parts :: "string list \<Rightarrow> string list \<Rightarrow> string list" where
  "add_parts [] filenames = filenames"
| "add_parts (part # parts) filenames =
     (let p = basename_only (py_strip part) in
      if p \<noteq> [] \<and> py_lower p \<notin> set ['''', ''none'', ''nan'']
      then add_parts parts (if p \<in> set filenames then filenames else filenames @ [p])
      else add_parts parts filenames)"

fun gather_loop :: "string list \<Rightarrow> string list \<Rightarrow> cell list \<Rightarrow> string list \<Rightarrow> string list" where
  "gather_loop [] columns row filenames = filenames"
| "gather_loop (col # cols) columns row filenames =
     (let raw = row_get columns row col in
      if \<not> is_blank raw
      then gather_loop cols columns row (add_parts (re_split_seps False (py_str raw)) filenames)
      else gather_loop cols columns row filenames)"

definition gather_filenames :: "string list \<Rightarrow> string list \<Rightarrow> cell list \<Rightarrow> string list" where
  "gather_filenames filename_cols columns row = gather_loop filename_cols columns row []"

text \<open>
  The output tree. A package directory maps the names of its files to their contents:
  the metadata document (the children of its root), the manifest (its lines) or a
  copied bitstream (the name of the source file). \<open>out_tree\<close> maps the number of a
  package to its directory, when it exists.
\<close>

datatype file_content = DublinCore "dcvalue list" | Contents "string list" | Bitstream string

type_synonym package = "string \<rightharpoonup> file_content"

text \<open>
  What the run cannot decide from its inputs: the bitstream directory, and which
  operations of the operating system fail (for the record with the given number).
\<close>

record env =
  files_dir :: directory
  mkdir_fails :: "nat \<Rightarrow> bool"
  xml_write_fails :: "nat \<Rightarrow> bool"
  copy_fails :: "nat \<Rightarrow> string \<Rightarrow> bool"
  contents_write_fails :: "nat \<Rightarrow> bool"

text \<open>The counters of \<^verbatim>\<open>main\<close>, the output tree, and the log: the missing-file warnings
  and the records whose processing was logged as failed.\<close>

record run_state =
  out_tree :: "nat \<rightharpoonup> package"
  total_records :: nat
  total_files_copied :: nat
  total_missing_files :: nat
  error_count :: nat
  missing_log :: "(nat \<times> string) list"
  error_log :: "nat list"

text \<open>\<^verbatim>\<open>safe_mkdir(item_dir)\<close>: an existing directory is kept as it is.\<close>

definition safe_mkdir :: "nat \<Rightarrow> (nat \<rightharpoonup> package) \<Rightarrow> (nat \<rightharpoonup> package)" where
  "safe_mkdir n tree = (case tree n of None \<Rightarrow> tree(n \<mapsto> Map.empty) | Some pk \<Rightarrow> tree)"

text \<open>Writing a file into a package directory; there is nothing to write into when the
  directory does not exist.\<close>

definition put_file ::
  "nat \<Rightarrow> string \<Rightarrow> file_content \<Rightarrow> (nat \<rightharpoonup> package) \<Rightarrow> (nat \<rightharpoonup> package) option" where
  "put_file n name content tree =
     (case tree n of
        None \<Rightarrow> None
      | Some pk \<Rightarrow> Some (tree(n \<mapsto> pk(name \<mapsto> content))))"

text \<open>The copy loop: a failed copy is logged and skipped, a successful one is appended
  to \<open>copied\<close> and counted. A copy that raises is taken to leave no file behind, and
  copying into a directory that does not exist raises.\<close>

fun copy_loop :: "env \<Rightarrow> nat \<Rightarrow> string list \<Rightarrow> string list \<Rightarrow> run_state \<Rightarrow> string list \<times> run_state" where
  "copy_loop e n [] copied st = (copied, st)"
| "copy_loop e n (fname # rest) copied st =
     (if copy_fails e n fname then copy_loop e n rest copied st
      else (case put_file n fname (Bitstream fname) (out_tree st) of
              None \<Rightarrow> copy_loop e n rest copied st
            | Some tree \<Rightarrow>
                copy_loop e n rest (copied @ [fname])
                  (st\<lparr>out_tree := tree, total_files_copied := total_files_copied st + 1\<rparr>)))"

text \<open>\<^verbatim>\<open>missing_files = filenames - set(found_files)\<close>.\<close>

definition missing_files_of :: "string list \<Rightarrow> string list \<Rightarrow> string list" where
  "missing_files_of filenames found_files = filter (\<lambda>f. f \<notin> set found_files) filenames"

text \<open>
  The body of the \<^verbatim>\<open>try\<close> block for the record numbered \<open>n\<close>: the result is \<open>Inl e\<close>
  when an exception leaves the block, together with the state reached by then. The
  warning about missing required fields only writes to the log and is left out; an
  operation of the operating system that fails raises before it changes anything.
\<close>

definition process_record ::
  "env \<Rightarrow> string list \<Rightarrow> string list \<Rightarrow> nat \<Rightarrow> cell list \<Rightarrow> run_state \<Rightarrow> (error + unit) \<times> run_state" where
  "process_record e columns filename_cols n row st =
     (case validate_required_fields REQUIRED_FIELDS (map Some columns) row of
        Inl err \<Rightarrow> (Inl err, st)
      | Inr missing_fields \<Rightarrow>
          if mkdir_fails e n then (Inl OSError, st)
          else (let st1 = st\<lparr>out_tree := safe_mkdir n (out_tree st)\<rparr> in
                if xml_write_fails e n then (Inl OSError, st1)
                else (case put_file n ''dublin_core.xml''
                             (DublinCore (write_dc_xml (map Some columns) row)) (out_tree st1) of
                        None \<Rightarrow> (Inl OSError, st1)
                      | Some tree2 \<Rightarrow>
                          (let st2 = st1\<lparr>out_tree := tree2\<rparr>;
                               filenames = gather_filenames filename_cols columns row in
                           case find_files_for_item filenames (files_dir e) of
                             Inl err \<Rightarrow> (Inl err, st2)
                           | Inr found_files \<Rightarrow>
                               (let missing_files = missing_files_of filenames found_files in
                                case copy_loop e n found_files [] st2 of
                                  (copied, st3) \<Rightarrow>
                                    (let st4 = st3\<lparr>total_missing_files :=
                                                      total_missing_files st3 + length missing_files,
                                                    missing_log := missing_log st3 @
                                                      map (\<lambda>f. (n, f)) missing_files\<rparr> in
                                     if contents_write_fails e n then (Inl OSError, st4)
                                     else (case put_file n ''contents'' (Contents (sort copied))
                                                  (out_tree st4) of
                                             None \<Rightarrow> (Inl OSError, st4)
                                           | Some tree5 \<Rightarrow>
                                               (Inr (), st4\<lparr>out_tree := tree5\<rparr>))))))))"

text \<open>The loop of \<^verbatim>\<open>main\<close> over the data rows: the \<^verbatim>\<open>except\<close> clause logs the record,
  counts it and lets the loop go on.\<close>

fun main_loop :: "env \<Rightarrow> string list \<Rightarrow> string list \<Rightarrow> cell list list \<Rightarrow> run_state \<Rightarrow> run_state" where
  "main_loop e columns filename_cols [] st = st"
| "main_loop e columns filename_cols (row # rows) st =
     (let st1 = st\<lparr>total_records := total_records st + 1\<rparr> in
      case process_record e columns filename_cols (total_records st1) row st1 of
        (Inl err, st2) \<Rightarrow>
          main_loop e columns filename_cols rows
            (st2\<lparr>error_count := error_count st2 + 1,
                 error_log := error_log st2 @ [total_records st1]\<rparr>)
      | (Inr u, st2) \<Rightarrow> main_loop e columns filename_cols rows st2)"

definition initial_state :: run_state where
  "initial_state =
     \<lparr>out_tree = Map.empty, total_records = 0, total_files_copied = 0,
      total_missing_files = 0, error_count = 0, missing_log = [], error_log = []\<rparr>"

text \<open>\<^verbatim>\<open>main\<close> from the loaded frame on: its cleaned columns and its data rows.\<close>

definition run_main :: "env \<Rightarrow> string list \<Rightarrow> cell list list \<Rightarrow> run_state" where
  "run_main e columns rows =
     main_loop e columns (detect_filename_columns columns) rows initial_state"

text \<open>Notions used to state what a record leaves in its package directory: the directory
  as \<^verbatim>\<open>safe_mkdir\<close> finds or creates it, the files a list of successful copies adds, and
  the found files whose copy succeeds.\<close>

definition package_of :: "(nat \<rightharpoonup> package) \<Rightarrow> nat \<Rightarrow> package" where
  "package_of tree n = (case tree n of None \<Rightarrow> Map.empty | Some pk \<Rightarrow> pk)"

definition add_bitstreams :: "string list \<Rightarrow> package \<Rightarrow> package" where
  "add_bitstreams fs pk = fold (\<lambda>f p. p(f \<mapsto> Bitstream f)) fs pk"

definition copies_ok :: "env \<Rightarrow> nat \<Rightarrow> string list \<Rightarrow> string list" where
  "copies_ok e n found_files = filter (\<lambda>f. \<not> copy_fails e n f) found_files"

section \<open>Notions used to state the behaviour of a run\<close>

text \<open>Whether processing the record numbered \<open>n\<close> raises; this does not depend on the
  state the record starts from.\<close>

definition record_raises :: "env \<Rightarrow> string list \<Rightarrow> string list \<Rightarrow> nat \<Rightarrow> cell list \<Rightarrow> bool" where
  "record_raises e columns filename_cols n row =
     isl (fst (process_record e columns filename_cols n row initial_state))"

text \<open>The numbers of the records that raise, the first row being numbered \<open>n + 1\<close>.\<close>

fun failed_records :: "env \<Rightarrow> string list \<Rightarrow> string list \<Rightarrow> nat \<Rightarrow> cell list list \<Rightarrow> nat list" where
  "failed_records e columns filename_cols n [] = []"
| "failed_records e columns filename_cols n (row # rows) =
     (if record_raises e columns filename_cols (Suc n) row then [Suc n] else []) @
     failed_records e columns filename_cols (Suc n) rows"

text \<open>Every directory and every file of the first tree is still there in the second.\<close>

definition persists :: "(nat \<rightharpoonup> package) \<Rightarrow> (nat \<rightharpoonup> package) \<Rightarrow> bool" where
  "persists t t' =
     (\<forall>n pk. t n = Some pk \<longrightarrow> (\<exists>pk'. t' n = Some pk' \<and> dom pk \<subseteq> dom pk'))"

text \<open>The state a record ends in, raised or not, when it is the row after \<open>pre\<close> in a run
  started from \<open>st\<close>.\<close>

definition state_after_record ::
  "env \<Rightarrow> string list \<Rightarrow> string list \<Rightarrow> cell list list \<Rightarrow> cell list \<Rightarrow> run_state \<Rightarrow> run_state" where
  "state_after_record e columns filename_cols pre row st =
     (let st0 = main_loop e columns filename_cols pre st;
          st1 = st0\<lparr>total_records := total_records st0 + 1\<rparr>
      in snd (process_record e columns filename_cols (total_records st1) row st1))"

section \<open>PackageValidator: validate_item of validate_saf.py\<close>

text \<open>
  A package directory as the validator reads it: the metadata document (absent, not
  parsable, or the children of its root), the lines of the manifest as iterating over
  the open file yields them (each with its line end), when the file exists, and which
  paths under the directory exist.
\<close>

record xml_node =
  node_tag :: string
  node_element :: "string option"
  node_qualifier :: "string option"
  node_text :: "string option"

datatype dc_document = Absent | Unparsable | Parsed "xml_node list"

record package_dir =
  dublin_core :: dc_document
  contents_lines :: "string list option"
  file_exists :: "string \<Rightarrow> bool"

datatype issue =
    MissingDublinCore
  | InvalidXML
  | MissingRequiredMetadata string
  | MissingContentsFile
  | ListedButMissing string

text \<open>\<^verbatim>\<open>s.split()\<close>: the words between runs of whitespace; \<open>cur\<close> is the word being read.\<close>

fun words_from :: "string \<Rightarrow> string \<Rightarrow> string list" where
  "words_from cur [] = (if cur = [] then [] else [cur])"
| "words_from cur (c # cs) =
     (if is_space c
      then (if cur = [] then words_from [] cs else cur # words_from [] cs)
      else words_from (cur @ [c]) cs)"

definition py_split_ws :: "string \<Rightarrow> string list" where
  "py_split_ws s = words_from [] s"

text \<open>Step 3: the dictionary \<^verbatim>\<open>found_fields\<close>, in insertion order, updated for one
  \<^verbatim>\<open>dcvalue\<close> child.\<close>

definition set_found :: "string \<Rightarrow> (string \<times> bool) list \<Rightarrow> (string \<times> bool) list" where
  "set_found key found_fields = map (\<lambda>(f, ok). if f = key then (f, True) else (f, ok)) found_fields"

definition mark_node :: "xml_node \<Rightarrow> (string \<times> bool) list \<Rightarrow> (string \<times> bool) list" where
  "mark_node dcvalue found_fields =
     (let text = (case node_text dcvalue of
                    None \<Rightarrow> []
                  | Some t \<Rightarrow> if t = [] then [] else py_strip t) in
      if text = [] then found_fields
      else if node_element dcvalue = Some ''title'' then set_found ''title'' found_fields
      else if node_element dcvalue = Some ''creator'' then set_found ''creator'' found_fields
      else if node_element dcvalue = Some ''date'' \<and> node_qualifier dcvalue = Some ''issued''
           then set_found ''date.issued'' found_fields
      else found_fields)"

text \<open>Step 4: the loop over the lines of the manifest; \<^verbatim>\<open>line.strip().split()[0]\<close> raises
  \<^verbatim>\<open>IndexError\<close> when the line holds no word.\<close>

fun check_lines :: "(string \<Rightarrow> bool) \<Rightarrow> string list \<Rightarrow> issue list \<Rightarrow> error + issue list" where
  "check_lines ex [] issues = Inr issues"
| "check_lines ex (line # rest) issues =
     (case py_index (py_split_ws (py_strip line)) 0 of
        Inl e \<Rightarrow> Inl e
      | Inr fname \<Rightarrow>
          check_lines ex rest (if \<not> ex fname then issues @ [ListedButMissing fname] else issues))"

text \<open>\<open>Inl e\<close> when an exception leaves \<^verbatim>\<open>validate_item\<close>, otherwise the report.\<close>

definition validate_item ::
  "'a \<Rightarrow> package_dir \<Rightarrow> ('a \<times> issue list) list \<Rightarrow> error + ('a \<times> issue list) list" where
  "validate_item item_dir p report =
     (case dublin_core p of
        Absent \<Rightarrow> Inr (report @ [(item_dir, [MissingDublinCore])])
      | Unparsable \<Rightarrow> Inr (report @ [(item_dir, [InvalidXML])])
      | Parsed root \<Rightarrow>
          (let found_fields =
                 fold mark_node (filter (\<lambda>c. node_tag c = ''dcvalue'') root)
                   (map (\<lambda>f. (f, False)) REQUIRED_FIELDS);
               issues = map (\<lambda>(f, ok). MissingRequiredMetadata f)
                          (filter (\<lambda>(f, ok). \<not> ok) found_fields)
           in case contents_lines p of
                None \<Rightarrow> Inr (report @ [(item_dir, issues @ [MissingContentsFile])])
              | Some lines \<Rightarrow>
                  (case check_lines (file_exists p) lines issues of
                     Inl e \<Rightarrow> Inl e
                   | Inr issues' \<Rightarrow>
                       Inr (if issues' \<noteq> [] then report @ [(item_dir, issues')] else report))))"

section \<open>Example inputs\<close>

definition sheet_counts :: "cell list list" where
  "sheet_counts =
    [[CStr ''Fill in the template below'', CNaN, CNaN],
     [CStr ''dc.title'', CNaN, CStr ''notes''],
     [CStr ''dc.title'', CStr ''DC.creator'', CStr '' dc.date.issued''],
     [CStr ''dc.title'', CStr ''dc.creator'', CNone]]"

definition sheet_filename :: "cell list list" where
  "sheet_filename =
    [[CStr ''dc.title'', CStr ''File Name''],
     [CStr ''dc.title'', CStr ''dc.creator'', CStr ''File_Name''],
     [CStr ''dc.title'', CStr ''dc.creator'', CStr ''dc.date.issued'', CStr ''filename'']]"

definition sheet_text :: "cell list list" where
  "sheet_text = [[CStr ''notes'', CNaN], [CStr ''more notes'']]"

definition record_columns :: "string option list" where
  "record_columns = [Some ''dc.title'', Some ''dc.creator'', Some ''dc.date.issued'', Some ''Filename'']"

definition record_no_date :: "cell list" where
  "record_no_date = [CStr ''A history'', CStr ''Doe, Jane'', CNaN, CStr ''a.pdf'']"

definition no_faults :: "directory \<Rightarrow> env" where
  "no_faults d =
     \<lparr>files_dir = d, mkdir_fails = (\<lambda>n. False), xml_write_fails = (\<lambda>n. False),
      copy_fails = (\<lambda>n f. False), contents_write_fails = (\<lambda>n. False)\<rparr>"

definition file_columns :: "string list" where
  "file_columns = [''dc.title'', ''Filename'']"

definition env_copy_fault :: env where
  "env_copy_fault =
     \<lparr>files_dir = Some [''b.pdf'', ''a.pdf'', ''c.pdf''], mkdir_fails = (\<lambda>n. False),
      xml_write_fails = (\<lambda>n. False), copy_fails = (\<lambda>n f. f = ''c.pdf''),
      contents_write_fails = (\<lambda>n. False)\<rparr>"

definition row_three_files :: "cell list" where
  "row_three_files = [CStr ''Annual report'', CStr ''b.pdf; a.pdf; c.pdf'']"

definition row_photo_upper :: "cell list" where
  "row_photo_upper = [CStr ''Harbour at dawn'', CStr ''Photo.JPG'']"

definition row_no_file :: "cell list" where
  "row_no_file = [CStr ''Untitled'', CNaN]"

definition package_blank_line :: package_dir where
  "package_blank_line =
     \<lparr>dublin_core = Parsed
        [\<lparr>node_tag = ''dcvalue'', node_element = Some ''title'', node_qualifier = Some ''none'',
          node_text = Some ''A history''\<rparr>,
         \<lparr>node_tag = ''dcvalue'', node_element = Some ''creator'', node_qualifier = Some ''none'',
          node_text = Some ''Doe, Jane''\<rparr>,
         \<lparr>node_tag = ''dcvalue'', node_element = Some ''date'', node_qualifier = Some ''issued'',
          node_text = Some ''2020''\<rparr>],
      contents_lines = Some [''a.pdf'' @ [CHR 0x0A], [CHR 0x0A]],
      file_exists = (\<lambda>f. f = ''a.pdf'')\<rparr>"

section \<open>Verification: header detection\<close>

lemma scan_rows_first_candidate:
  "k < length rows \<Longrightarrow> header_candidate (rows ! k) \<Longrightarrow>
   (\<forall>j<k. \<not> header_candidate (rows ! j)) \<Longrightarrow>
   scan_rows i b c rows = Inl (i + k)"
proof (induction rows arbitrary: i b c k)
  case Nil
  then show ?case by simp
next
  case (Cons r rows)
  show ?case
  proof (cases k)
    case 0
    with Cons.prems show ?thesis by (simp add: header_candidate_def)
  next
    case (Suc k')
    from Cons.prems Suc have nc: "\<not> header_candidate r" by auto
    from Cons.prems Suc have a: "k' < length rows" "header_candidate (rows ! k')"
      "\<forall>j<k'. \<not> header_candidate (rows ! j)" by auto
    have "scan_rows (Suc i) b' c' rows = Inl (Suc i + k')" for b' c'
      using Cons.IH[OF a] .
    with nc Suc show ?thesis by (simp add: header_candidate_def)
  qed
qed

lemma scan_rows_no_candidate:
  "\<forall>r\<in>set rows. \<not> header_candidate r \<Longrightarrow>
   \<exists>bi bc. scan_rows i b c rows = Inr (bi, bc) \<and>
     ((\<forall>r\<in>set rows. int (dc_count r) \<le> c) \<and> bi = b \<and> bc = c \<or>
      (\<exists>k<length rows. bi = Some (i + k) \<and> bc = int (dc_count (rows ! k)) \<and> c < bc \<and>
          (\<forall>j<k. int (dc_count (rows ! j)) < bc) \<and>
          (\<forall>j<length rows. int (dc_count (rows ! j)) \<le> bc)))"
proof (induction rows arbitrary: i b c)
  case Nil
  then show ?case by simp
next
  case (Cons r rows)
  from Cons.prems have nc: "\<not> header_candidate r" and rest: "\<forall>r\<in>set rows. \<not> header_candidate r"
    by auto
  show ?case
  proof (cases "int (dc_count r) > c")
    case True
    from Cons.IH[OF rest, of "Suc i" "Some i" "int (dc_count r)"]
    obtain bi bc where s: "scan_rows (Suc i) (Some i) (int (dc_count r)) rows = Inr (bi, bc)"
      and d: "(\<forall>r'\<in>set rows. int (dc_count r') \<le> int (dc_count r)) \<and> bi = Some i \<and> bc = int (dc_count r) \<or>
      (\<exists>k<length rows. bi = Some (Suc i + k) \<and> bc = int (dc_count (rows ! k)) \<and> int (dc_count r) < bc \<and>
          (\<forall>j<k. int (dc_count (rows ! j)) < bc) \<and>
          (\<forall>j<length rows. int (dc_count (rows ! j)) \<le> bc))" by blast
    have e: "scan_rows i b c (r # rows) = Inr (bi, bc)"
      using nc True s by (simp add: header_candidate_def)
    from d show ?thesis
    proof
      assume a: "(\<forall>r'\<in>set rows. int (dc_count r') \<le> int (dc_count r)) \<and> bi = Some i \<and> bc = int (dc_count r)"
      have "\<forall>j<length (r # rows). int (dc_count ((r # rows) ! j)) \<le> bc"
      proof (intro allI impI)
        fix j assume "j < length (r # rows)"
        then show "int (dc_count ((r # rows) ! j)) \<le> bc"
          using a by (cases j) auto
      qed
      with a True have "\<exists>k<length (r # rows). bi = Some (i + k) \<and> bc = int (dc_count ((r # rows) ! k)) \<and> c < bc \<and>
          (\<forall>j<k. int (dc_count ((r # rows) ! j)) < bc) \<and>
          (\<forall>j<length (r # rows). int (dc_count ((r # rows) ! j)) \<le> bc)"
        by (intro exI[of _ 0]) simp
      with e show ?thesis by blast
    next
      assume "\<exists>k<length rows. bi = Some (Suc i + k) \<and> bc = int (dc_count (rows ! k)) \<and> int (dc_count r) < bc \<and>
          (\<forall>j<k. int (dc_count (rows ! j)) < bc) \<and>
          (\<forall>j<length rows. int (dc_count (rows ! j)) \<le> bc)"
      then obtain k where k: "k < length rows" "bi = Some (Suc i + k)" "bc = int (dc_count (rows ! k))"
         "int (dc_count r) < bc" "\<forall>j<k. int (dc_count (rows ! j)) < bc"
         "\<forall>j<length rows. int (dc_count (rows ! j)) \<le> bc" by blast
      have p1: "\<forall>j<Suc k. int (dc_count ((r # rows) ! j)) < bc"
      proof (intro allI impI)
        fix j assume "j < Suc k" then show "int (dc_count ((r # rows) ! j)) < bc"
          using k by (cases j) auto
      qed
      have p2: "\<forall>j<length (r # rows). int (dc_count ((r # rows) ! j)) \<le> bc"
      proof (intro allI impI)
        fix j assume "j < length (r # rows)" then show "int (dc_count ((r # rows) ! j)) \<le> bc"
          using k by (cases j) auto
      qed
      have "\<exists>k<length (r # rows). bi = Some (i + k) \<and> bc = int (dc_count ((r # rows) ! k)) \<and> c < bc \<and>
          (\<forall>j<k. int (dc_count ((r # rows) ! j)) < bc) \<and>
          (\<forall>j<length (r # rows). int (dc_count ((r # rows) ! j)) \<le> bc)"
        using k True p1 p2 by (intro exI[of _ "Suc k"]) simp
      with e show ?thesis by blast
    qed
  next
    case False
    from Cons.IH[OF rest, of "Suc i" b c]
    obtain bi bc where s: "scan_rows (Suc i) b c rows = Inr (bi, bc)"
      and d: "(\<forall>r'\<in>set rows. int (dc_count r') \<le> c) \<and> bi = b \<and> bc = c \<or>
      (\<exists>k<length rows. bi = Some (Suc i + k) \<and> bc = int (dc_count (rows ! k)) \<and> c < bc \<and>
          (\<forall>j<k. int (dc_count (rows ! j)) < bc) \<and>
          (\<forall>j<length rows. int (dc_count (rows ! j)) \<le> bc))" by blast
    have e: "scan_rows i b c (r # rows) = Inr (bi, bc)"
      using nc False s by (simp add: header_candidate_def)
    from d show ?thesis
    proof
      assume "(\<forall>r'\<in>set rows. int (dc_count r') \<le> c) \<and> bi = b \<and> bc = c"
      with False e show ?thesis by auto
    next
      assume "\<exists>k<length rows. bi = Some (Suc i + k) \<and> bc = int (dc_count (rows ! k)) \<and> c < bc \<and>
          (\<forall>j<k. int (dc_count (rows ! j)) < bc) \<and>
          (\<forall>j<length rows. int (dc_count (rows ! j)) \<le> bc)"
      then obtain k where k: "k < length rows" "bi = Some (Suc i + k)" "bc = int (dc_count (rows ! k))"
         "c < bc" "\<forall>j<k. int (dc_count (rows ! j)) < bc"
         "\<forall>j<length rows. int (dc_count (rows ! j)) \<le> bc" by blast
      have p1: "\<forall>j<Suc k. int (dc_count ((r # rows) ! j)) < bc"
      proof (intro allI impI)
        fix j assume "j < Suc k" then show "int (dc_count ((r # rows) ! j)) < bc"
          using k False by (cases j) auto
      qed
      have p2: "\<forall>j<length (r # rows). int (dc_count ((r # rows) ! j)) \<le> bc"
      proof (intro allI impI)
        fix j assume "j < length (r # rows)" then show "int (dc_count ((r # rows) ! j)) \<le> bc"
          using k False by (cases j) auto
      qed
      have "\<exists>k<length (r # rows). bi = Some (i + k) \<and> bc = int (dc_count ((r # rows) ! k)) \<and> c < bc \<and>
          (\<forall>j<k. int (dc_count ((r # rows) ! j)) < bc) \<and>
          (\<forall>j<length (r # rows). int (dc_count ((r # rows) ! j)) \<le> bc)"
        using k p1 p2 by (intro exI[of _ "Suc k"]) simp
      with e show ?thesis by blast
    qed
  qed
qed

text \<open>
  Claim C3. The header detector returns the first scanned row that has a filename-like
  cell and at least two cells with the schema prefix; when there is none, the first row
  with the strictly greatest prefix count, provided that count is positive; otherwise
  index 0. Rows with prefix counts 0, 1, 3, 2 and no filename-like cell give index 2.
\<close>

theorem find_header_row_selection:
  "(\<forall>i<length (take max_scan sheet).
      header_candidate (take max_scan sheet ! i) \<and>
      (\<forall>j<i. \<not> header_candidate (take max_scan sheet ! j)) \<longrightarrow>
      find_header_row sheet max_scan = i) \<and>
   ((\<forall>r\<in>set (take max_scan sheet). \<not> header_candidate r) \<longrightarrow>
      (\<forall>i<length (take max_scan sheet).
         0 < dc_count (take max_scan sheet ! i) \<and>
         (\<forall>j<length (take max_scan sheet).
             dc_count (take max_scan sheet ! j) \<le> dc_count (take max_scan sheet ! i)) \<and>
         (\<forall>j<i. dc_count (take max_scan sheet ! j) < dc_count (take max_scan sheet ! i)) \<longrightarrow>
         find_header_row sheet max_scan = i)) \<and>
   ((\<forall>r\<in>set (take max_scan sheet). \<not> header_candidate r \<and> dc_count r = 0) \<longrightarrow>
      find_header_row sheet max_scan = 0) \<and>
   (4 \<le> max_scan \<and> \<not> has_filename r0 \<and> \<not> has_filename r1 \<and> \<not> has_filename r2 \<and>
    \<not> has_filename r3 \<and> map dc_count [r0, r1, r2, r3] = [0, 1, 3, 2] \<longrightarrow>
      find_header_row [r0, r1, r2, r3] max_scan = 2)"
proof (intro conjI)
  let ?rows = "take max_scan sheet"
  show "\<forall>i<length ?rows. header_candidate (?rows ! i) \<and>
      (\<forall>j<i. \<not> header_candidate (?rows ! j)) \<longrightarrow> find_header_row sheet max_scan = i"
  proof (intro allI impI)
    fix i assume "i < length ?rows"
      and "header_candidate (?rows ! i) \<and> (\<forall>j<i. \<not> header_candidate (?rows ! j))"
    then have "scan_rows 0 None (-1) ?rows = Inl (0 + i)"
      by (intro scan_rows_first_candidate) auto
    then show "find_header_row sheet max_scan = i"
      by (simp add: find_header_row_def)
  qed
next
  let ?rows = "take max_scan sheet"
  show "(\<forall>r\<in>set ?rows. \<not> header_candidate r) \<longrightarrow>
      (\<forall>i<length ?rows. 0 < dc_count (?rows ! i) \<and>
         (\<forall>j<length ?rows. dc_count (?rows ! j) \<le> dc_count (?rows ! i)) \<and>
         (\<forall>j<i. dc_count (?rows ! j) < dc_count (?rows ! i)) \<longrightarrow>
         find_header_row sheet max_scan = i)"
  proof (intro allI impI)
    fix i
    assume nc: "\<forall>r\<in>set ?rows. \<not> header_candidate r" and i: "i < length ?rows"
      and h: "0 < dc_count (?rows ! i) \<and>
         (\<forall>j<length ?rows. dc_count (?rows ! j) \<le> dc_count (?rows ! i)) \<and>
         (\<forall>j<i. dc_count (?rows ! j) < dc_count (?rows ! i))"
    from scan_rows_no_candidate[OF nc, of 0 None "-1"]
    obtain bi bc where s: "scan_rows 0 None (-1) ?rows = Inr (bi, bc)"
      and d: "(\<forall>r\<in>set ?rows. int (dc_count r) \<le> -1) \<and> bi = None \<and> bc = -1 \<or>
        (\<exists>k<length ?rows. bi = Some (0 + k) \<and> bc = int (dc_count (?rows ! k)) \<and> -1 < bc \<and>
          (\<forall>j<k. int (dc_count (?rows ! j)) < bc) \<and>
          (\<forall>j<length ?rows. int (dc_count (?rows ! j)) \<le> bc))" by blast
    from i have "?rows ! i \<in> set ?rows" by (rule nth_mem)
    then have "\<not> (\<forall>r\<in>set ?rows. int (dc_count r) \<le> -1)" by force
    with d obtain k where k: "k < length ?rows" "bi = Some k" "bc = int (dc_count (?rows ! k))"
      "\<forall>j<k. int (dc_count (?rows ! j)) < bc" "\<forall>j<length ?rows. int (dc_count (?rows ! j)) \<le> bc"
      by auto
    have "k = i"
    proof (rule ccontr)
      assume "k \<noteq> i"
      then consider "k < i" | "i < k" by linarith
      then show False
      proof cases
        case 1
        with h have "dc_count (?rows ! k) < dc_count (?rows ! i)" by blast
        moreover from k(3,5) i have "dc_count (?rows ! i) \<le> dc_count (?rows ! k)" by auto
        ultimately show False by simp
      next
        case 2
        with k(3,4) have "dc_count (?rows ! i) < dc_count (?rows ! k)" by auto
        moreover from h k(1) have "dc_count (?rows ! k) \<le> dc_count (?rows ! i)" by blast
        ultimately show False by simp
      qed
    qed
    with s k h show "find_header_row sheet max_scan = i"
      by (simp add: find_header_row_def)
  qed
next
  let ?rows = "take max_scan sheet"
  show "(\<forall>r\<in>set ?rows. \<not> header_candidate r \<and> dc_count r = 0) \<longrightarrow>
      find_header_row sheet max_scan = 0"
  proof
    assume a: "\<forall>r\<in>set ?rows. \<not> header_candidate r \<and> dc_count r = 0"
    then have nc: "\<forall>r\<in>set ?rows. \<not> header_candidate r" by blast
    from scan_rows_no_candidate[OF nc, of 0 None "-1"]
    obtain bi bc where s: "scan_rows 0 None (-1) ?rows = Inr (bi, bc)"
      and d: "bi = None \<and> bc = -1 \<or>
        (\<exists>k<length ?rows. bi = Some (0 + k) \<and> bc = int (dc_count (?rows ! k)))" by blast
    from d have "bi = None \<or> bc = 0"
    proof
      assume "bi = None \<and> bc = -1" then show ?thesis by simp
    next
      assume "\<exists>k<length ?rows. bi = Some (0 + k) \<and> bc = int (dc_count (?rows ! k))"
      then obtain k where kk: "k < length ?rows" "bc = int (dc_count (?rows ! k))" by blast
      from kk(1) have "?rows ! k \<in> set ?rows" by (rule nth_mem)
      with a kk(2) show ?thesis by simp
    qed
    with s show "find_header_row sheet max_scan = 0"
      by (auto simp: find_header_row_def split: option.splits)
  qed
next
  show "4 \<le> max_scan \<and> \<not> has_filename r0 \<and> \<not> has_filename r1 \<and> \<not> has_filename r2 \<and>
    \<not> has_filename r3 \<and> map dc_count [r0, r1, r2, r3] = [0, 1, 3, 2] \<longrightarrow>
      find_header_row [r0, r1, r2, r3] max_scan = 2"
    by (simp add: find_header_row_def)
qed

theorem find_header_row_selection_witness:
  "find_header_row sheet_filename 25 = 1 \<and> find_header_row sheet_counts 25 = 2 \<and>
   find_header_row sheet_text 25 = 0 \<and>
   find_header_row [sheet_counts ! 0, sheet_counts ! 1, sheet_counts ! 2, sheet_counts ! 3] 25 = 2"
proof (intro conjI)
  have a: "take 25 sheet_filename = sheet_filename" by (simp add: sheet_filename_def)
  have c0: "\<not> header_candidate (sheet_filename ! 0)" by code_simp
  have c1: "header_candidate (sheet_filename ! 1)" by code_simp
  have l: "1 < length (take 25 sheet_filename)" by (simp add: sheet_filename_def)
  have h: "header_candidate (take 25 sheet_filename ! 1) \<and>
      (\<forall>j<1. \<not> header_candidate (take 25 sheet_filename ! j))"
    using c0 c1 by (simp add: a)
  note T = find_header_row_selection[of 25 sheet_filename]
  from T[THEN conjunct1, rule_format, OF l h]
  show "find_header_row sheet_filename 25 = 1" .
next
  have a: "take 25 sheet_counts = sheet_counts" by (simp add: sheet_counts_def)
  have l: "length sheet_counts = 4" by (simp add: sheet_counts_def)
  have s: "set sheet_counts = {sheet_counts ! 0, sheet_counts ! 1, sheet_counts ! 2, sheet_counts ! 3}"
    by (simp add: sheet_counts_def)
  have n: "\<not> header_candidate (sheet_counts ! 0)" "\<not> header_candidate (sheet_counts ! 1)"
    "\<not> header_candidate (sheet_counts ! 2)" "\<not> header_candidate (sheet_counts ! 3)"
    by code_simp+
  have c: "dc_count (sheet_counts ! 0) = 0" "dc_count (sheet_counts ! 1) = 1"
    "dc_count (sheet_counts ! 2) = 3" "dc_count (sheet_counts ! 3) = 2"
    by code_simp+
  have h1: "\<forall>r\<in>set (take 25 sheet_counts). \<not> header_candidate r"
    unfolding a s using n by simp
  have lt4: "j < 4 \<Longrightarrow> j = 0 \<or> j = 1 \<or> j = 2 \<or> j = 3" for j :: nat by arith
  have lt2: "j < 2 \<Longrightarrow> j = 0 \<or> j = 1" for j :: nat by arith
  have h2: "2 < length (take 25 sheet_counts)" by (simp add: a l)
  have m: "dc_count (sheet_counts ! j) \<le> 3" if "j < 4" for j
    using lt4[OF that] c by auto
  have f: "dc_count (sheet_counts ! j) < 3" if "j < 2" for j
    using lt2[OF that] c by auto
  have h3: "0 < dc_count (take 25 sheet_counts ! 2) \<and>
         (\<forall>j<length (take 25 sheet_counts).
             dc_count (take 25 sheet_counts ! j) \<le> dc_count (take 25 sheet_counts ! 2)) \<and>
         (\<forall>j<2. dc_count (take 25 sheet_counts ! j) < dc_count (take 25 sheet_counts ! 2))"
    unfolding a l c using m f by simp
  note T = find_header_row_selection[of 25 sheet_counts]
  from T[THEN conjunct2, THEN conjunct1, rule_format, OF h1[rule_format] h2 h3]
  show "find_header_row sheet_counts 25 = 2" .
next
  have a: "take 25 sheet_text = sheet_text" by (simp add: sheet_text_def)
  have s: "set sheet_text = {sheet_text ! 0, sheet_text ! 1}" by (simp add: sheet_text_def)
  have n: "\<not> header_candidate (sheet_text ! 0)" "\<not> header_candidate (sheet_text ! 1)"
    by code_simp+
  have c: "dc_count (sheet_text ! 0) = 0" "dc_count (sheet_text ! 1) = 0"
    by code_simp+
  have h: "\<forall>r\<in>set (take 25 sheet_text). \<not> header_candidate r \<and> dc_count r = 0"
    unfolding a s using n c by simp
  note T = find_header_row_selection[of 25 sheet_text]
  from T[THEN conjunct2, THEN conjunct2, THEN conjunct1, rule_format, OF h[rule_format]]
  show "find_header_row sheet_text 25 = 0" .
next
  have n: "\<not> has_filename (sheet_counts ! 0)" "\<not> has_filename (sheet_counts ! 1)"
    "\<not> has_filename (sheet_counts ! 2)" "\<not> has_filename (sheet_counts ! 3)"
    by code_simp+
  have c: "map dc_count [sheet_counts ! 0, sheet_counts ! 1, sheet_counts ! 2, sheet_counts ! 3]
           = [0, 1, 3, 2]"
    by code_simp
  have h: "4 \<le> (25::nat) \<and> \<not> has_filename (sheet_counts ! 0) \<and> \<not> has_filename (sheet_counts ! 1) \<and>
    \<not> has_filename (sheet_counts ! 2) \<and> \<not> has_filename (sheet_counts ! 3) \<and>
    map dc_count [sheet_counts ! 0, sheet_counts ! 1, sheet_counts ! 2, sheet_counts ! 3] = [0, 1, 3, 2]"
    using n c by simp
  note T = find_header_row_selection[of 25 sheet_counts "sheet_counts ! 0" "sheet_counts ! 1"
         "sheet_counts ! 2" "sheet_counts ! 3"]
  from T[THEN conjunct2, THEN conjunct2, THEN conjunct2, rule_format, OF h]
  show "find_header_row [sheet_counts ! 0, sheet_counts ! 1, sheet_counts ! 2, sheet_counts ! 3] 25 = 2" .
qed

section \<open>Verification: metadata writer\<close>

lemma write_loop_distinct:
  "distinct (map triple_of nodes) \<Longrightarrow> triple_of ` set nodes \<subseteq> seen \<Longrightarrow>
   distinct (map triple_of (write_loop cvs nodes seen))"
proof (induction cvs arbitrary: nodes seen)
  case Nil
  then show ?case by simp
next
  case (Cons cv rest)
  obtain raw_col val where cv: "cv = (raw_col, val)" by (cases cv)
  note 2 = Cons.prems
  show ?case
  proof (cases "is_blank val \<or> raw_col = None")
    case True
    with Cons show ?thesis by (simp add: cv)
  next
    case nb: False
    let ?base = "base_header (Some (norm_header raw_col))"
    show ?thesis
    proof (cases "is_dc_column (Some ?base)")
      case False
      with nb Cons show ?thesis by (simp add: cv)
    next
      case dc: True
      obtain e q where pq: "parse_dc (Some ?base) = (e, q)" by (cases "parse_dc (Some ?base)")
      show ?thesis
      proof (cases e)
        case None
        with nb dc pq Cons show ?thesis by (simp add: cv)
      next
        case (Some element)
        let ?text = "py_strip (py_str val)"
        let ?trip = "(element, or_none q, ?text)"
        let ?node = "\<lparr>dc_element = element, dc_qualifier = or_none q,
                      dc_language = LANG_ATTR, dc_text = ?text\<rparr>"
        show ?thesis
        proof (cases "?text = [] \<or> ?trip \<in> seen")
          case True
          with nb dc pq Some Cons show ?thesis by (auto simp: Let_def cv)
        next
          case False
          have t: "triple_of ?node = ?trip" by (simp add: triple_of_def)
          from False Cons.prems have d: "distinct (map triple_of (nodes @ [?node]))"
            by (auto simp: t)
          from Cons.prems have s: "triple_of ` set (nodes @ [?node]) \<subseteq> insert ?trip seen"
            by (auto simp: t)
          have "distinct (map triple_of (write_loop rest (nodes @ [?node]) (insert ?trip seen)))"
            using Cons.IH[OF d s] .
          with nb dc pq Some False show ?thesis by (auto simp: Let_def cv)
        qed
      qed
    qed
  qed
qed

lemma not_blank_strip: "\<not> is_blank (CStr t) \<Longrightarrow> py_strip t \<noteq> []"
  by (auto simp: py_lower_def)

text \<open>
  Claim C4. The document written for a record has no two field nodes with the same
  (element, qualifier or "none", trimmed text) triple; two columns \<open>dc.subject\<close> and
  \<open>dc.subject.2\<close> holding the same non-blank text give exactly one node.
\<close>

theorem write_dc_xml_dedup:
  "distinct (map triple_of (write_dc_xml columns row_values)) \<and>
   (\<not> is_blank (CStr t) \<longrightarrow>
      length (write_dc_xml [Some ''dc.subject'', Some ''dc.subject.2''] [CStr t, CStr t]) = 1)"
proof
  show "distinct (map triple_of (write_dc_xml columns row_values))"
    unfolding write_dc_xml_def by (rule write_loop_distinct) simp_all
next
  have b1: "base_header (Some (norm_header (Some ''dc.subject''))) = ''dc.subject''"
    by code_simp
  have b2: "base_header (Some (norm_header (Some ''dc.subject.2''))) = ''dc.subject''"
    by code_simp
  have d: "is_dc_column (Some ''dc.subject'')" by code_simp
  have p: "parse_dc (Some ''dc.subject'') = (Some ''subject'', None)" by code_simp
  show "\<not> is_blank (CStr t) \<longrightarrow>
      length (write_dc_xml [Some ''dc.subject'', Some ''dc.subject.2''] [CStr t, CStr t]) = 1"
  proof
    assume nb: "\<not> is_blank (CStr t)"
    then have "py_strip t \<noteq> []" by (rule not_blank_strip)
    with nb show "length (write_dc_xml [Some ''dc.subject'', Some ''dc.subject.2''] [CStr t, CStr t]) = 1"
      by (simp add: write_dc_xml_def b1 b2 d p Let_def del: is_blank.simps)
  qed
qed

theorem write_dc_xml_dedup_witness:
  "\<not> is_blank (CStr ''History'') \<and>
   length (write_dc_xml [Some ''dc.subject'', Some ''dc.subject.2'']
             [CStr ''History'', CStr ''History'']) = 1"
proof -
  have h: "\<not> is_blank (CStr ''History'')" by code_simp
  from write_dc_xml_dedup[of _ _ "''History''", THEN conjunct2, rule_format, OF h] h
  show ?thesis by simp
qed

section \<open>Verification: numeric suffixes\<close>

lemma numeric_suffix_at_end_digits:
  assumes "ds \<noteq> []" and "\<forall>d\<in>set ds. is_digit d"
  shows "numeric_suffix_at_end (p @ CHR ''.'' # ds) = Some p"
proof -
  have nd: "\<not> is_digit (CHR ''.'')" by (simp add: is_digit_def)
  have r: "rev (p @ CHR ''.'' # ds) = rev ds @ CHR ''.'' # rev p" by simp
  have t: "takeWhile is_digit (rev ds @ CHR ''.'' # rev p) = rev ds"
  proof -
    have "takeWhile is_digit (rev ds @ CHR ''.'' # rev p) = rev ds @ takeWhile is_digit (CHR ''.'' # rev p)"
      by (rule takeWhile_append2) (use assms(2) in auto)
    then show ?thesis using nd by simp
  qed
  have dr: "dropWhile is_digit (rev ds @ CHR ''.'' # rev p) = CHR ''.'' # rev p"
  proof -
    have "dropWhile is_digit (rev ds @ CHR ''.'' # rev p) = dropWhile is_digit (CHR ''.'' # rev p)"
      by (rule dropWhile_append2) (use assms(2) in auto)
    then show ?thesis using nd by simp
  qed
  show ?thesis
    unfolding numeric_suffix_at_end_def r Let_def t dr using assms(1) by simp
qed

lemma base_header_digits:
  "ds \<noteq> [] \<Longrightarrow> \<forall>d\<in>set ds. is_digit d \<Longrightarrow> base_header (Some (p @ CHR ''.'' # ds)) = p"
  by (simp add: base_header_def numeric_suffix_at_end_digits)

text \<open>
  Claim C9. A column whose canonical name is \<open>p\<close>, a dot and a non-empty run of digits
  is decomposed as \<open>p\<close> alone: the node written for it has the element and qualifier of
  \<open>p\<close>, so the digits never reach the qualifier. The column \<open>dc.date.2024\<close> is written
  exactly as \<open>dc.date\<close> is, with element \<open>date\<close> and qualifier \<open>none\<close>.
\<close>

theorem numeric_suffix_never_qualifier:
  "norm_header col = p @ CHR ''.'' # ds \<and> ds \<noteq> [] \<and> (\<forall>d\<in>set ds. is_digit d) \<longrightarrow>
     write_dc_xml [col] [v] =
       (if is_blank v \<or> col = None \<or> \<not> is_dc_column (Some p) then []
        else (case parse_dc (Some p) of
                (None, q) \<Rightarrow> []
              | (Some e, q) \<Rightarrow>
                  if py_strip (py_str v) = [] then []
                  else [\<lparr>dc_element = e, dc_qualifier = or_none q,
                         dc_language = LANG_ATTR, dc_text = py_strip (py_str v)\<rparr>])) \<and>
     write_dc_xml [Some ''dc.date.2024''] [CStr ''x''] = write_dc_xml [Some ''dc.date''] [CStr ''x''] \<and>
     write_dc_xml [Some ''dc.date.2024''] [CStr ''x''] =
       [\<lparr>dc_element = ''date'', dc_qualifier = ''none'', dc_language = ''en'', dc_text = ''x''\<rparr>]"
proof (intro impI conjI)
  assume a: "norm_header col = p @ CHR ''.'' # ds \<and> ds \<noteq> [] \<and> (\<forall>d\<in>set ds. is_digit d)"
  then have b: "base_header (Some (norm_header col)) = p"
    by (simp add: base_header_digits)
  show "write_dc_xml [col] [v] =
       (if is_blank v \<or> col = None \<or> \<not> is_dc_column (Some p) then []
        else (case parse_dc (Some p) of
                (None, q) \<Rightarrow> []
              | (Some e, q) \<Rightarrow>
                  if py_strip (py_str v) = [] then []
                  else [\<lparr>dc_element = e, dc_qualifier = or_none q,
                         dc_language = LANG_ATTR, dc_text = py_strip (py_str v)\<rparr>]))"
    by (auto simp: write_dc_xml_def b Let_def split: prod.splits option.splits)
next
  assume "norm_header col = p @ CHR ''.'' # ds \<and> ds \<noteq> [] \<and> (\<forall>d\<in>set ds. is_digit d)"
  show "write_dc_xml [Some ''dc.date.2024''] [CStr ''x''] = write_dc_xml [Some ''dc.date''] [CStr ''x'']"
    by code_simp
next
  assume "norm_header col = p @ CHR ''.'' # ds \<and> ds \<noteq> [] \<and> (\<forall>d\<in>set ds. is_digit d)"
  show "write_dc_xml [Some ''dc.date.2024''] [CStr ''x''] =
       [\<lparr>dc_element = ''date'', dc_qualifier = ''none'', dc_language = ''en'', dc_text = ''x''\<rparr>]"
    by code_simp
qed

theorem numeric_suffix_never_qualifier_witness:
  "norm_header (Some ''dc.date.2024'') = ''dc.date'' @ CHR ''.'' # ''2024'' \<and>
   ''2024'' \<noteq> [] \<and> list_all is_digit ''2024'' \<and>
   write_dc_xml [Some ''dc.date.2024''] [CStr ''x''] =
     [\<lparr>dc_element = ''date'', dc_qualifier = ''none'', dc_language = ''en'', dc_text = ''x''\<rparr>]"
proof -
  have h1: "norm_header (Some ''dc.date.2024'') = ''dc.date'' @ CHR ''.'' # ''2024''"
    by code_simp
  have h2: "''2024'' \<noteq> []" by simp
  have h3: "\<forall>d\<in>set ''2024''. is_digit d" by (simp add: is_digit_def)
  have e1: "\<not> is_blank (CStr ''x'')" by code_simp
  have e2: "is_dc_column (Some ''dc.date'')" by code_simp
  have e3: "parse_dc (Some ''dc.date'') = (Some ''date'', None)" by code_simp
  have e4: "py_strip (py_str (CStr ''x'')) = ''x''" by code_simp
  have e5: "or_none None = ''none''" by (simp add: or_none_def)
  have "write_dc_xml [Some ''dc.date.2024''] [CStr ''x''] =
     [\<lparr>dc_element = ''date'', dc_qualifier = ''none'', dc_language = ''en'', dc_text = ''x''\<rparr>]"
    using numeric_suffix_never_qualifier[of "Some ''dc.date.2024''" "''dc.date''" "''2024''" "CStr ''x''",
        THEN mp, OF conjI[OF h1 conjI[OF h2 h3]], THEN conjunct1]
    by (simp add: e1 e2 e3 e4 e5 LANG_ATTR_def del: is_blank.simps py_str.simps)
  moreover from h3 have "list_all is_digit ''2024''" by (simp add: list_all_iff)
  ultimately show ?thesis using h1 h2 by blast
qed

section \<open>Verification: required-field check\<close>

lemma py_split_nonempty: "py_split c s \<noteq> []"
  by (induction s) (auto split: list.splits)

lemma py_split_no_sep: "c \<notin> set s \<Longrightarrow> py_split c s = [s]"
  by (induction s) auto

lemma py_split_sep:
  "c \<in> set s \<Longrightarrow>
   py_split c s = takeWhile (\<lambda>x. x \<noteq> c) s # py_split c (tl (dropWhile (\<lambda>x. x \<noteq> c) s))"
proof (induction s)
  case Nil
  then show ?case by simp
next
  case (Cons x xs)
  show ?case
  proof (cases "x = c")
    case True
    then show ?thesis by simp
  next
    case False
    with Cons.prems have "c \<in> set xs" by simp
    from Cons.IH[OF this] False show ?thesis by simp
  qed
qed

lemma py_index_split_0:
  "py_index (py_split (CHR ''.'') spec) 0 = Inr (fst (specifier_parts spec))"
proof (cases "CHR ''.'' \<in> set spec")
  case True
  then show ?thesis
    by (simp add: py_index_def specifier_parts_def py_split_sep)
next
  case False
  then show ?thesis
    by (simp add: py_index_def specifier_parts_def py_split_no_sep)
qed

lemma py_index_split_1_ok:
  "CHR ''.'' \<in> set spec \<Longrightarrow> \<exists>e1. py_index (py_split (CHR ''.'') spec) 1 = Inr e1"
  using py_split_nonempty[of "CHR ''.''" "tl (dropWhile (\<lambda>x. x \<noteq> CHR ''.'') spec)"]
  by (cases "py_split (CHR ''.'') (tl (dropWhile (\<lambda>x. x \<noteq> CHR ''.'') spec))")
     (auto simp: py_index_def py_split_sep)

lemma simple_rest_no_dot:
  "simple_specifier spec \<Longrightarrow> CHR ''.'' \<in> set spec \<Longrightarrow>
   CHR ''.'' \<notin> set (tl (dropWhile (\<lambda>x. x \<noteq> CHR ''.'') spec))"
proof (induction spec)
  case Nil
  then show ?case by simp
next
  case (Cons x xs)
  show ?case
  proof (cases "x = CHR ''.''")
    case True
    with Cons.prems(1) have "filter (\<lambda>c. c = CHR ''.'') xs = []"
      by (simp add: simple_specifier_def)
    then have "CHR ''.'' \<notin> set xs" by (auto simp: filter_empty_conv)
    with True show ?thesis by simp
  next
    case False
    with Cons.prems have "simple_specifier xs" "CHR ''.'' \<in> set xs"
      by (simp_all add: simple_specifier_def)
    from Cons.IH[OF this] False show ?thesis by simp
  qed
qed

lemma py_index_split_1_simple:
  assumes "simple_specifier spec" "CHR ''.'' \<in> set spec"
  shows "py_index (py_split (CHR ''.'') spec) 1 = Inr (the (snd (specifier_parts spec)))"
proof -
  from simple_rest_no_dot[OF assms]
  have "py_split (CHR ''.'') (tl (dropWhile (\<lambda>x. x \<noteq> CHR ''.'') spec))
        = [tl (dropWhile (\<lambda>x. x \<noteq> CHR ''.'') spec)]"
    by (rule py_split_no_sep)
  with assms(2) show ?thesis
    by (simp add: py_index_def py_split_sep specifier_parts_def)
qed

lemma field_matches_total: "\<exists>b. field_matches element col val = Inr b"
proof (cases "CHR ''.'' \<in> set element")
  case True
  from py_index_split_1_ok[OF True] obtain e1 where
    "py_index (py_split (CHR ''.'') element) 1 = Inr e1" by blast
  then show ?thesis
    by (auto simp: field_matches_def Let_def py_index_split_0 split: prod.splits)
next
  case False
  then show ?thesis
    by (auto simp: field_matches_def Let_def py_index_split_0 split: prod.splits)
qed

lemma field_matches_simple:
  assumes "simple_specifier element"
  shows "field_matches element col val = Inr (column_satisfies element col val)"
proof (cases "CHR ''.'' \<in> set element")
  case True
  then obtain q where q: "snd (specifier_parts element) = Some q"
    by (simp add: specifier_parts_def)
  from py_index_split_1_simple[OF assms True] q
  have i1: "py_index (py_split (CHR ''.'') element) (Suc 0) = Inr q" by simp
  show ?thesis
    using True q
    by (auto simp: field_matches_def column_satisfies_def Let_def py_index_split_0 i1
             split: prod.splits)
next
  case False
  then have q: "snd (specifier_parts element) = None"
    by (simp add: specifier_parts_def)
  show ?thesis
    using False q
    by (auto simp: field_matches_def column_satisfies_def Let_def py_index_split_0
             split: prod.splits)
qed

lemma scan_columns_total: "\<exists>b. scan_columns element cvs = Inr b"
proof (induction cvs)
  case Nil
  show ?case by (rule exI[of _ False]) simp
next
  case (Cons cv cvs)
  obtain col val where cv: "cv = (col, val)" by (cases cv)
  from field_matches_total[of element col val] obtain b where
    b: "field_matches element col val = Inr b" by blast
  from Cons obtain b' where b': "scan_columns element cvs = Inr b'" by blast
  show ?case by (cases b) (auto simp: cv b b')
qed

lemma scan_columns_simple:
  "simple_specifier element \<Longrightarrow>
   scan_columns element cvs = Inr (\<exists>(col, val) \<in> set cvs. column_satisfies element col val)"
proof (induction cvs)
  case Nil
  then show ?case by simp
next
  case (Cons cv cvs)
  obtain col val where cv: "cv = (col, val)" by (cases cv)
  from Cons show ?case by (auto simp: cv field_matches_simple)
qed

lemma required_loop_total: "\<exists>ms. required_loop required cvs missing = Inr ms"
proof (induction required arbitrary: missing)
  case Nil
  then show ?case by simp
next
  case (Cons element rest)
  from scan_columns_total[of element cvs] obtain b where
    b: "scan_columns element cvs = Inr b" by blast
  from Cons[of "if b then missing else missing @ [element]"] b
  show ?case by simp
qed

lemma required_loop_simple:
  "\<forall>s\<in>set required. simple_specifier s \<Longrightarrow>
   required_loop required cvs missing =
     Inr (missing @ filter (\<lambda>s. \<not> (\<exists>(col, val) \<in> set cvs. column_satisfies s col val)) required)"
proof (induction required arbitrary: missing)
  case Nil
  then show ?case by simp
next
  case (Cons element rest)
  then have s: "simple_specifier element" and r: "\<forall>s\<in>set rest. simple_specifier s" by simp_all
  show ?case
    by (simp add: scan_columns_simple[OF s] Cons.IH[OF r])
qed

text \<open>
  Claim C7. The required-field checker never raises, and for specifiers that are a bare
  element or \<open>element.qualifier\<close> it returns exactly the specifiers that no
  metadata-bearing column with a non-blank cell satisfies, in the order of the list. A
  record with title and creator but no issued date reports exactly \<open>date.issued\<close>.
\<close>

theorem validate_required_fields_exact:
  "(\<exists>missing. validate_required_fields required columns row_values = Inr missing) \<and>
   ((\<forall>s\<in>set required. simple_specifier s) \<longrightarrow>
      validate_required_fields required columns row_values =
        Inr (filter (\<lambda>s. \<not> specifier_satisfied s columns row_values) required)) \<and>
   (specifier_satisfied ''title'' columns row_values \<and>
    specifier_satisfied ''creator'' columns row_values \<and>
    \<not> specifier_satisfied ''date.issued'' columns row_values \<longrightarrow>
      validate_required_fields REQUIRED_FIELDS columns row_values = Inr [''date.issued''])"
proof (intro conjI)
  show "\<exists>missing. validate_required_fields required columns row_values = Inr missing"
    unfolding validate_required_fields_def by (rule required_loop_total)
next
  show "(\<forall>s\<in>set required. simple_specifier s) \<longrightarrow>
      validate_required_fields required columns row_values =
        Inr (filter (\<lambda>s. \<not> specifier_satisfied s columns row_values) required)"
    by (simp add: validate_required_fields_def required_loop_simple specifier_satisfied_def)
next
  have s: "\<forall>s\<in>set REQUIRED_FIELDS. simple_specifier s"
    by (simp add: REQUIRED_FIELDS_def simple_specifier_def)
  have "validate_required_fields REQUIRED_FIELDS columns row_values =
        Inr (filter (\<lambda>s. \<not> specifier_satisfied s columns row_values) REQUIRED_FIELDS)"
    by (simp add: validate_required_fields_def required_loop_simple[OF s] specifier_satisfied_def)
  then show "specifier_satisfied ''title'' columns row_values \<and>
    specifier_satisfied ''creator'' columns row_values \<and>
    \<not> specifier_satisfied ''date.issued'' columns row_values \<longrightarrow>
      validate_required_fields REQUIRED_FIELDS columns row_values = Inr [''date.issued'']"
    by (simp add: REQUIRED_FIELDS_def)
qed

theorem validate_required_fields_exact_witness:
  "list_all simple_specifier REQUIRED_FIELDS \<and>
   specifier_satisfied ''title'' record_columns record_no_date \<and>
   specifier_satisfied ''creator'' record_columns record_no_date \<and>
   \<not> specifier_satisfied ''date.issued'' record_columns record_no_date \<and>
   validate_required_fields REQUIRED_FIELDS record_columns record_no_date = Inr [''date.issued''] \<and>
   filter (\<lambda>s. \<not> specifier_satisfied s record_columns record_no_date) REQUIRED_FIELDS
     = [''date.issued'']"
proof -
  have s: "\<forall>s\<in>set REQUIRED_FIELDS. simple_specifier s"
    by (simp add: REQUIRED_FIELDS_def simple_specifier_def)
  have t: "specifier_satisfied ''title'' record_columns record_no_date" by code_simp
  have c: "specifier_satisfied ''creator'' record_columns record_no_date" by code_simp
  have d: "\<not> specifier_satisfied ''date.issued'' record_columns record_no_date" by code_simp
  note T = validate_required_fields_exact[of REQUIRED_FIELDS record_columns record_no_date]
  from T[THEN conjunct2, THEN conjunct2, rule_format, OF conjI[OF t conjI[OF c d]]]
  have r: "validate_required_fields REQUIRED_FIELDS record_columns record_no_date = Inr [''date.issued'']" .
  from T[THEN conjunct2, THEN conjunct1, rule_format, OF s[rule_format]] r
  have f: "filter (\<lambda>s. \<not> specifier_satisfied s record_columns record_no_date) REQUIRED_FIELDS
     = [''date.issued'']" by simp
  from s have "list_all simple_specifier REQUIRED_FIELDS" by (simp add: list_all_iff)
  with t c d r f show ?thesis by blast
qed

section \<open>Verification: the record pipeline\<close>

lemma add_bitstreams_apply:
  "add_bitstreams fs pk f = (if f \<in> set fs then Some (Bitstream f) else pk f)"
  unfolding add_bitstreams_def by (induction fs arbitrary: pk) auto

lemma add_bitstreams_Cons:
  "add_bitstreams (f # fs) pk = add_bitstreams fs (pk(f \<mapsto> Bitstream f))"
  by (simp add: add_bitstreams_def)

lemma safe_mkdir_eq: "safe_mkdir n tree = tree(n \<mapsto> package_of tree n)"
  by (auto simp: safe_mkdir_def package_of_def split: option.splits)

lemma put_file_upd: "put_file n name c (tree(n \<mapsto> pk)) = Some (tree(n \<mapsto> pk(name \<mapsto> c)))"
  by (simp add: put_file_def)

lemma copy_loop_eq:
  "out_tree st n = Some pk \<Longrightarrow>
   copy_loop e n fs copied st =
     (copied @ copies_ok e n fs,
      st\<lparr>out_tree := (out_tree st)(n \<mapsto> add_bitstreams (copies_ok e n fs) pk),
         total_files_copied := total_files_copied st + length (copies_ok e n fs)\<rparr>)"
proof (induction fs arbitrary: copied st pk)
  case Nil
  then have "(out_tree st)(n \<mapsto> pk) = out_tree st" by (simp add: fun_upd_idem)
  then show ?case by (simp add: copies_ok_def add_bitstreams_def)
next
  case (Cons f fs)
  show ?case
  proof (cases "copy_fails e n f")
    case True
    with Cons.IH[OF Cons.prems, of copied] show ?thesis
      by (simp add: copies_ok_def)
  next
    case False
    let ?st' = "st\<lparr>out_tree := (out_tree st)(n \<mapsto> pk(f \<mapsto> Bitstream f)),
                   total_files_copied := total_files_copied st + 1\<rparr>"
    have p: "put_file n f (Bitstream f) (out_tree st) = Some ((out_tree st)(n \<mapsto> pk(f \<mapsto> Bitstream f)))"
      using Cons.prems by (simp add: put_file_def)
    have o: "out_tree ?st' n = Some (pk(f \<mapsto> Bitstream f))" by simp
    have ih: "copy_loop e n fs (copied @ [f]) ?st' =
      ((copied @ [f]) @ copies_ok e n fs,
       ?st'\<lparr>out_tree := (out_tree ?st')(n \<mapsto> add_bitstreams (copies_ok e n fs) (pk(f \<mapsto> Bitstream f))),
            total_files_copied := total_files_copied ?st' + length (copies_ok e n fs)\<rparr>)"
      by (rule Cons.IH[OF o])
    have c: "copies_ok e n (f # fs) = f # copies_ok e n fs"
      using False by (simp add: copies_ok_def)
    have u: "?st'\<lparr>out_tree := (out_tree ?st')(n \<mapsto> Y),
                 total_files_copied := total_files_copied ?st' + length cs\<rparr> =
             st\<lparr>out_tree := (out_tree st)(n \<mapsto> Y),
                total_files_copied := total_files_copied st + length (f # cs)\<rparr>" for Y cs
      by (cases st) simp
    have "copy_loop e n (f # fs) copied st = copy_loop e n fs (copied @ [f]) ?st'"
      using False p by simp
    also note ih
    finally have "copy_loop e n (f # fs) copied st =
      ((copied @ [f]) @ copies_ok e n fs,
       st\<lparr>out_tree := (out_tree st)(n \<mapsto> add_bitstreams (copies_ok e n fs) (pk(f \<mapsto> Bitstream f))),
          total_files_copied := total_files_copied st + length (f # copies_ok e n fs)\<rparr>)"
      by (simp only: u)
    then show ?thesis
      by (simp only: c add_bitstreams_Cons append_Cons append_Nil append_assoc)
  qed
qed

lemma validate_required_fields_Inr:
  "\<exists>ms. validate_required_fields required columns row_values = Inr ms"
  unfolding validate_required_fields_def by (rule required_loop_total)

lemma process_record_eq:
  "process_record e columns filename_cols n row st =
     (if mkdir_fails e n then (Inl OSError, st)
      else if xml_write_fails e n
      then (Inl OSError, st\<lparr>out_tree := (out_tree st)(n \<mapsto> package_of (out_tree st) n)\<rparr>)
      else (let pk2 = (package_of (out_tree st) n)
                        (''dublin_core.xml'' \<mapsto> DublinCore (write_dc_xml (map Some columns) row));
                filenames = gather_filenames filename_cols columns row in
            case find_files_for_item filenames (files_dir e) of
              Inl err \<Rightarrow> (Inl err, st\<lparr>out_tree := (out_tree st)(n \<mapsto> pk2)\<rparr>)
            | Inr found_files \<Rightarrow>
                (let copied = copies_ok e n found_files;
                     pk3 = add_bitstreams copied pk2;
                     missing_files = missing_files_of filenames found_files;
                     st4 = st\<lparr>out_tree := (out_tree st)(n \<mapsto> pk3),
                              total_files_copied := total_files_copied st + length copied,
                              total_missing_files := total_missing_files st + length missing_files,
                              missing_log := missing_log st @ map (\<lambda>f. (n, f)) missing_files\<rparr> in
                 if contents_write_fails e n then (Inl OSError, st4)
                 else (Inr (), st4\<lparr>out_tree :=
                         (out_tree st)(n \<mapsto> pk3(''contents'' \<mapsto> Contents (sort copied)))\<rparr>))))"
proof -
  obtain ms where v: "validate_required_fields REQUIRED_FIELDS (map Some columns) row = Inr ms"
    using validate_required_fields_Inr by blast
  show ?thesis
  proof (cases "mkdir_fails e n \<or> xml_write_fails e n")
    case True
    then show ?thesis
      by (auto simp: process_record_def v safe_mkdir_eq Let_def)
  next
    case False
    let ?pk2 = "(package_of (out_tree st) n)
                  (''dublin_core.xml'' \<mapsto> DublinCore (write_dc_xml (map Some columns) row))"
    let ?st2 = "st\<lparr>out_tree := (out_tree st)(n \<mapsto> ?pk2)\<rparr>"
    have o: "out_tree ?st2 n = Some ?pk2" by simp
    show ?thesis
    proof (cases "find_files_for_item (gather_filenames filename_cols columns row) (files_dir e)")
      case (Inl err)
      with False show ?thesis
        by (simp add: process_record_def v safe_mkdir_eq put_file_upd Let_def)
    next
      case (Inr found_files)
      note c = copy_loop_eq[OF o, of e found_files "[]"]
      from False Inr show ?thesis
        by (simp add: process_record_def v safe_mkdir_eq put_file_upd Let_def c)
    qed
  qed
qed

lemma process_record_result_indep:
  "fst (process_record e columns filename_cols n row st) =
   fst (process_record e columns filename_cols n row st')"
  by (simp add: process_record_eq Let_def split: sum.splits)

lemma process_record_total_records:
  "total_records (snd (process_record e columns filename_cols n row st)) = total_records st"
  by (simp add: process_record_eq Let_def split: sum.splits)

lemma process_record_error_log:
  "error_log (snd (process_record e columns filename_cols n row st)) = error_log st"
  by (simp add: process_record_eq Let_def split: sum.splits)

lemma process_record_error_count:
  "error_count (snd (process_record e columns filename_cols n row st)) = error_count st"
  by (simp add: process_record_eq Let_def split: sum.splits)

lemma persists_refl: "persists t t"
  by (simp add: persists_def)

lemma persists_trans: "persists t t' \<Longrightarrow> persists t' t'' \<Longrightarrow> persists t t''"
  unfolding persists_def by (meson subset_trans)

lemma persists_upd:
  "dom (package_of t n) \<subseteq> dom pk \<Longrightarrow> persists t (t(n \<mapsto> pk))"
proof -
  assume a: "dom (package_of t n) \<subseteq> dom pk"
  show ?thesis
    unfolding persists_def
  proof (intro allI impI)
    fix m p assume p: "t m = Some p"
    show "\<exists>pk'. (t(n \<mapsto> pk)) m = Some pk' \<and> dom p \<subseteq> dom pk'"
    proof (cases "m = n")
      case True
      with p have "package_of t n = p" by (simp add: package_of_def)
      with a True show ?thesis by simp
    next
      case False
      with p show ?thesis by simp
    qed
  qed
qed

lemma dom_add_bitstreams: "dom pk \<subseteq> dom (add_bitstreams fs pk)"
  by (auto simp: add_bitstreams_apply dom_def)

lemma process_record_persists:
  "persists (out_tree st) (out_tree (snd (process_record e columns filename_cols n row st)))"
proof -
  have a: "dom (package_of (out_tree st) n) \<subseteq>
           dom ((add_bitstreams fs ((package_of (out_tree st) n)(x \<mapsto> y)))(z \<mapsto> w))" for fs x y z w
    using dom_add_bitstreams[of "(package_of (out_tree st) n)(x \<mapsto> y)" fs] by auto
  have b: "dom (package_of (out_tree st) n) \<subseteq>
           dom (add_bitstreams fs ((package_of (out_tree st) n)(x \<mapsto> y)))" for fs x y
    using dom_add_bitstreams[of "(package_of (out_tree st) n)(x \<mapsto> y)" fs] by auto
  have c: "dom (package_of (out_tree st) n) \<subseteq> dom ((package_of (out_tree st) n)(x \<mapsto> y))" for x y
    by auto
  show ?thesis
    by (auto simp: process_record_eq Let_def persists_refl split: sum.splits
             intro!: persists_upd a b c)
qed

lemma record_raises_iff:
  "record_raises e columns filename_cols n row =
   isl (fst (process_record e columns filename_cols n row st))"
  unfolding record_raises_def
  using process_record_result_indep[of e columns filename_cols n row initial_state st] by simp

lemma main_loop_Cons:
  "main_loop e columns filename_cols (row # rows) st =
   main_loop e columns filename_cols rows
     (let part = state_after_record e columns filename_cols [] row st in
      if record_raises e columns filename_cols (Suc (total_records st)) row
      then part\<lparr>error_count := error_count part + 1,
                error_log := error_log part @ [Suc (total_records st)]\<rparr>
      else part)"
proof -
  let ?st1 = "st\<lparr>total_records := total_records st + 1\<rparr>"
  have n: "total_records ?st1 = Suc (total_records st)" by simp
  obtain r st2 where p:
    "process_record e columns filename_cols (Suc (total_records st)) row ?st1 = (r, st2)"
    by (cases "process_record e columns filename_cols (Suc (total_records st)) row ?st1")
  have rr: "record_raises e columns filename_cols (Suc (total_records st)) row = isl r"
    using record_raises_iff[of e columns filename_cols "Suc (total_records st)" row ?st1] p by simp
  have sa: "state_after_record e columns filename_cols [] row st = st2"
    using p by (simp add: state_after_record_def Let_def)
  show ?thesis
    unfolding sa rr using p by (cases r) (simp_all add: Let_def)
qed

lemma main_loop_append:
  "main_loop e columns filename_cols (xs @ ys) st =
   main_loop e columns filename_cols ys (main_loop e columns filename_cols xs st)"
proof (induction xs arbitrary: st)
  case Nil
  then show ?case by simp
next
  case (Cons x xs)
  show ?case by (simp only: append_Cons main_loop_Cons Cons.IH)
qed

lemma state_after_record_Nil_fields:
  "total_records (state_after_record e columns filename_cols [] row st) = Suc (total_records st)"
  "error_log (state_after_record e columns filename_cols [] row st) = error_log st"
  "error_count (state_after_record e columns filename_cols [] row st) = error_count st"
  by (simp_all add: state_after_record_def Let_def process_record_total_records
        process_record_error_log process_record_error_count)

lemma state_after_record_Nil_persists:
  "persists (out_tree st) (out_tree (state_after_record e columns filename_cols [] row st))"
  using process_record_persists[of "st\<lparr>total_records := total_records st + 1\<rparr>"]
  by (simp add: state_after_record_def Let_def)

lemma main_loop_total_records:
  "total_records (main_loop e columns filename_cols rows st) = total_records st + length rows"
proof (induction rows arbitrary: st)
  case Nil
  then show ?case by simp
next
  case (Cons row rows)
  show ?case
    by (simp only: main_loop_Cons Cons.IH) (simp add: Let_def state_after_record_Nil_fields)
qed

lemma main_loop_error_log:
  "error_log (main_loop e columns filename_cols rows st) =
   error_log st @ failed_records e columns filename_cols (total_records st) rows"
proof (induction rows arbitrary: st)
  case Nil
  then show ?case by simp
next
  case (Cons row rows)
  show ?case
    by (simp only: main_loop_Cons Cons.IH) (simp add: Let_def state_after_record_Nil_fields)
qed

lemma main_loop_error_count:
  "error_count (main_loop e columns filename_cols rows st) =
   error_count st + length (failed_records e columns filename_cols (total_records st) rows)"
proof (induction rows arbitrary: st)
  case Nil
  then show ?case by simp
next
  case (Cons row rows)
  show ?case
    by (simp only: main_loop_Cons Cons.IH) (simp add: Let_def state_after_record_Nil_fields)
qed

lemma main_loop_persists:
  "persists (out_tree st) (out_tree (main_loop e columns filename_cols rows st))"
proof (induction rows arbitrary: st)
  case Nil
  then show ?case by (simp add: persists_refl)
next
  case (Cons row rows)
  let ?part = "state_after_record e columns filename_cols [] row st"
  let ?next = "if record_raises e columns filename_cols (Suc (total_records st)) row
      then ?part\<lparr>error_count := error_count ?part + 1,
                error_log := error_log ?part @ [Suc (total_records st)]\<rparr>
      else ?part"
  have o: "out_tree ?next = out_tree ?part" by simp
  have "persists (out_tree st) (out_tree ?next)"
    unfolding o by (rule state_after_record_Nil_persists)
  moreover have "persists (out_tree ?next) (out_tree (main_loop e columns filename_cols rows ?next))"
    by (rule Cons.IH)
  ultimately have "persists (out_tree st) (out_tree (main_loop e columns filename_cols rows ?next))"
    by (rule persists_trans)
  then show ?case by (simp only: main_loop_Cons Let_def)
qed

lemma state_after_record_pre:
  "state_after_record e columns filename_cols pre row st =
   state_after_record e columns filename_cols [] row (main_loop e columns filename_cols pre st)"
  by (simp add: state_after_record_def)

lemma partial_state_persists:
  "rows = pre @ row # post \<Longrightarrow>
   persists (out_tree (state_after_record e columns filename_cols pre row st))
            (out_tree (main_loop e columns filename_cols rows st))"
proof -
  assume r: "rows = pre @ row # post"
  let ?st0 = "main_loop e columns filename_cols pre st"
  let ?part = "state_after_record e columns filename_cols [] row ?st0"
  let ?next = "if record_raises e columns filename_cols (Suc (total_records ?st0)) row
      then ?part\<lparr>error_count := error_count ?part + 1,
                error_log := error_log ?part @ [Suc (total_records ?st0)]\<rparr>
      else ?part"
  have o: "out_tree ?next = out_tree ?part" by simp
  have m: "main_loop e columns filename_cols rows st = main_loop e columns filename_cols post ?next"
    unfolding r by (simp only: main_loop_append main_loop_Cons Let_def)
  have "persists (out_tree ?next) (out_tree (main_loop e columns filename_cols post ?next))"
    by (rule main_loop_persists)
  then show ?thesis
    unfolding m state_after_record_pre[of e columns filename_cols pre] o .
qed

lemma process_record_frame:
  "m \<noteq> n \<Longrightarrow> out_tree (snd (process_record e columns filename_cols n row st)) m = out_tree st m"
  by (simp add: process_record_eq Let_def split: sum.splits)

lemma state_after_record_Nil_frame:
  "m \<noteq> Suc (total_records st) \<Longrightarrow>
   out_tree (state_after_record e columns filename_cols [] row st) m = out_tree st m"
  by (simp add: state_after_record_def Let_def process_record_frame)

lemma main_loop_frame:
  "m \<le> total_records st \<Longrightarrow> out_tree (main_loop e columns filename_cols rows st) m = out_tree st m"
proof (induction rows arbitrary: st)
  case Nil
  then show ?case by simp
next
  case (Cons row rows)
  let ?part = "state_after_record e columns filename_cols [] row st"
  let ?next = "if record_raises e columns filename_cols (Suc (total_records st)) row
      then ?part\<lparr>error_count := error_count ?part + 1,
                error_log := error_log ?part @ [Suc (total_records st)]\<rparr>
      else ?part"
  have t: "total_records ?next = Suc (total_records st)"
    by (simp add: state_after_record_Nil_fields)
  have o: "out_tree ?next = out_tree ?part" by simp
  from Cons.prems have "m \<le> total_records ?next" unfolding t by simp
  then have "out_tree (main_loop e columns filename_cols rows ?next) m = out_tree ?next m"
    by (rule Cons.IH)
  also have "\<dots> = out_tree st m"
    unfolding o using Cons.prems by (intro state_after_record_Nil_frame) simp
  finally show ?case by (simp only: main_loop_Cons Let_def)
qed

lemma find_files_missing_dir:
  "find_files_for_item filenames None = (if filenames = [] then Inr [] else Inl FileNotFoundError)"
  by (cases filenames) (simp_all add: find_files_for_item_def path_exists_def)

lemma process_record_missing_dir:
  assumes "files_dir e = None" "\<not> mkdir_fails e n" "\<not> xml_write_fails e n"
    "\<not> contents_write_fails e n"
  shows "process_record e columns filename_cols n row st =
     (if gather_filenames filename_cols columns row \<noteq> []
      then (Inl FileNotFoundError,
            st\<lparr>out_tree := (out_tree st)(n \<mapsto> (package_of (out_tree st) n)
               (''dublin_core.xml'' \<mapsto> DublinCore (write_dc_xml (map Some columns) row)))\<rparr>)
      else (Inr (),
            st\<lparr>out_tree := (out_tree st)(n \<mapsto> (package_of (out_tree st) n)
               (''dublin_core.xml'' \<mapsto> DublinCore (write_dc_xml (map Some columns) row),
                ''contents'' \<mapsto> Contents []))\<rparr>))"
proof (cases "gather_filenames filename_cols columns row = []")
  case True
  have "st\<lparr>out_tree := T, total_files_copied := total_files_copied st + 0,
           total_missing_files := total_missing_files st + 0,
           missing_log := missing_log st @ [], out_tree := T'\<rparr> = st\<lparr>out_tree := T'\<rparr>" for T T'
    by (cases st) simp
  then show ?thesis
    using assms True
    by (simp add: process_record_eq find_files_missing_dir Let_def copies_ok_def
          add_bitstreams_def missing_files_of_def)
next
  case False
  then show ?thesis
    using assms by (simp add: process_record_eq find_files_missing_dir Let_def)
qed

lemma failed_records_member:
  "m \<in> set (failed_records e columns filename_cols n rows) \<longleftrightarrow>
   (\<exists>k<length rows. m = n + Suc k \<and> record_raises e columns filename_cols m (rows ! k))"
proof (induction rows arbitrary: n)
  case Nil
  then show ?case by simp
next
  case (Cons row rows)
  show ?case
  proof
    assume "m \<in> set (failed_records e columns filename_cols n (row # rows))"
    then consider "m = Suc n" "record_raises e columns filename_cols (Suc n) row"
      | "m \<in> set (failed_records e columns filename_cols (Suc n) rows)"
      by (auto split: if_splits)
    then show "\<exists>k<length (row # rows). m = n + Suc k \<and>
                 record_raises e columns filename_cols m ((row # rows) ! k)"
    proof cases
      case 1
      then show ?thesis by (intro exI[of _ 0]) simp
    next
      case 2
      with Cons.IH[of "Suc n"] obtain k where "k < length rows" "m = Suc n + Suc k"
        "record_raises e columns filename_cols m (rows ! k)" by blast
      then show ?thesis by (intro exI[of _ "Suc k"]) simp
    qed
  next
    assume "\<exists>k<length (row # rows). m = n + Suc k \<and>
                 record_raises e columns filename_cols m ((row # rows) ! k)"
    then obtain k where k: "k < length (row # rows)" "m = n + Suc k"
        "record_raises e columns filename_cols m ((row # rows) ! k)" by blast
    show "m \<in> set (failed_records e columns filename_cols n (row # rows))"
    proof (cases k)
      case 0
      with k show ?thesis by simp
    next
      case (Suc k')
      with k have "k' < length rows" "m = Suc n + Suc k'"
        "record_raises e columns filename_cols m (rows ! k')" by simp_all
      then have "m \<in> set (failed_records e columns filename_cols (Suc n) rows)"
        using Cons.IH[of "Suc n"] by blast
      then show ?thesis by simp
    qed
  qed
qed

lemma record_raises_missing_dir:
  assumes "files_dir e = None"
    "\<forall>n. \<not> mkdir_fails e n \<and> \<not> xml_write_fails e n \<and> \<not> contents_write_fails e n"
  shows "record_raises e columns filename_cols n row =
         (gather_filenames filename_cols columns row \<noteq> [])"
  using assms by (simp add: record_raises_def process_record_missing_dir)

lemma failed_records_missing_dir_length:
  assumes "files_dir e = None"
    "\<forall>n. \<not> mkdir_fails e n \<and> \<not> xml_write_fails e n \<and> \<not> contents_write_fails e n"
  shows "length (failed_records e columns filename_cols n rows) =
         length (filter (\<lambda>row. gather_filenames filename_cols columns row \<noteq> []) rows)"
  by (induction rows arbitrary: n) (simp_all add: record_raises_missing_dir[OF assms])

lemma main_loop_missing_dir_package:
  assumes e: "files_dir e = None"
    "\<forall>n. \<not> mkdir_fails e n \<and> \<not> xml_write_fails e n \<and> \<not> contents_write_fails e n"
  shows "\<forall>m>total_records st. out_tree st m = None \<Longrightarrow> k < length rows \<Longrightarrow>
     out_tree (main_loop e columns filename_cols rows st) (total_records st + Suc k) =
       Some (if gather_filenames filename_cols columns (rows ! k) \<noteq> []
             then [''dublin_core.xml'' \<mapsto> DublinCore (write_dc_xml (map Some columns) (rows ! k))]
             else [''dublin_core.xml'' \<mapsto> DublinCore (write_dc_xml (map Some columns) (rows ! k)),
                   ''contents'' \<mapsto> Contents []])"
proof (induction rows arbitrary: st k)
  case Nil
  then show ?case by simp
next
  case (Cons row rows)
  let ?n = "Suc (total_records st)"
  let ?part = "state_after_record e columns filename_cols [] row st"
  let ?next = "if record_raises e columns filename_cols ?n row
      then ?part\<lparr>error_count := error_count ?part + 1,
                error_log := error_log ?part @ [?n]\<rparr>
      else ?part"
  have t: "total_records ?next = ?n" by (simp add: state_after_record_Nil_fields)
  have o: "out_tree ?next = out_tree ?part" by simp
  have m: "main_loop e columns filename_cols (row # rows) st =
           main_loop e columns filename_cols rows ?next"
    by (simp only: main_loop_Cons Let_def)
  from Cons.prems(1) have e0: "package_of (out_tree st) ?n = Map.empty"
    by (simp add: package_of_def)
  have nf: "\<not> mkdir_fails e ?n" "\<not> xml_write_fails e ?n" "\<not> contents_write_fails e ?n"
    using e(2) by simp_all
  have p: "out_tree ?part ?n =
       Some (if gather_filenames filename_cols columns row \<noteq> []
             then [''dublin_core.xml'' \<mapsto> DublinCore (write_dc_xml (map Some columns) row)]
             else [''dublin_core.xml'' \<mapsto> DublinCore (write_dc_xml (map Some columns) row),
                   ''contents'' \<mapsto> Contents []])"
    by (simp add: state_after_record_def Let_def process_record_missing_dir[OF e(1) nf] e0)
  have fresh: "\<forall>m>total_records ?next. out_tree ?next m = None"
    unfolding t o
  proof (intro allI impI)
    fix m assume "?n < m"
    then have "m \<noteq> ?n" "total_records st < m" by simp_all
    with Cons.prems(1) show "out_tree ?part m = None"
      by (simp add: state_after_record_Nil_frame)
  qed
  show ?case
  proof (cases k)
    case 0
    have "out_tree (main_loop e columns filename_cols rows ?next) ?n = out_tree ?next ?n"
      by (rule main_loop_frame) (simp add: t)
    with p 0 show ?thesis unfolding m o by simp
  next
    case (Suc k')
    with Cons.prems(2) have k': "k' < length rows" by simp
    from Cons.IH[OF fresh k'] Suc show ?thesis
      unfolding m t by simp
  qed
qed

section \<open>Verification: the manifest\<close>

text \<open>
  Claim C5. When a record is processed to the end, the manifest of its package holds
  exactly the found files whose copy succeeded, sorted ascending, one per line; those
  files are in the package directory, no other file was added to it, and the manifest
  is empty when no file was found or every copy failed.
\<close>

theorem manifest_lists_copied_files:
  "fst (process_record e columns filename_cols n row st) = Inr u \<Longrightarrow>
   \<exists>found pk.
     find_files_for_item (gather_filenames filename_cols columns row) (files_dir e) = Inr found \<and>
     out_tree (snd (process_record e columns filename_cols n row st)) n = Some pk \<and>
     pk ''contents'' = Some (Contents (sort (copies_ok e n found))) \<and>
     sorted (sort (copies_ok e n found)) \<and>
     set (sort (copies_ok e n found)) = {f \<in> set found. \<not> copy_fails e n f} \<and>
     (\<forall>f\<in>set (copies_ok e n found). f \<noteq> ''contents'' \<longrightarrow> pk f = Some (Bitstream f)) \<and>
     (\<forall>f. f \<notin> set (copies_ok e n found) \<and> f \<noteq> ''contents'' \<and> f \<noteq> ''dublin_core.xml'' \<longrightarrow>
          pk f = package_of (out_tree st) n f) \<and>
     ((found = [] \<or> (\<forall>f\<in>set found. copy_fails e n f)) \<longrightarrow> pk ''contents'' = Some (Contents []))"
proof -
  assume a: "fst (process_record e columns filename_cols n row st) = Inr u"
  let ?fl = "gather_filenames filename_cols columns row"
  from a have nf: "\<not> mkdir_fails e n" "\<not> xml_write_fails e n"
    by (auto simp: process_record_eq split: if_splits)
  from a nf obtain found where f: "find_files_for_item ?fl (files_dir e) = Inr found"
    by (cases "find_files_for_item ?fl (files_dir e)") (auto simp: process_record_eq Let_def)
  from a nf f have nc: "\<not> contents_write_fails e n"
    by (auto simp: process_record_eq Let_def split: if_splits)
  let ?copied = "copies_ok e n found"
  let ?pk2 = "(package_of (out_tree st) n)
                (''dublin_core.xml'' \<mapsto> DublinCore (write_dc_xml (map Some columns) row))"
  let ?pk = "(add_bitstreams ?copied ?pk2)(''contents'' \<mapsto> Contents (sort ?copied))"
  have o: "out_tree (snd (process_record e columns filename_cols n row st)) n = Some ?pk"
    using nf f nc by (simp add: process_record_eq Let_def)
  have c1: "?pk ''contents'' = Some (Contents (sort ?copied))" by simp
  have c2: "sorted (sort ?copied)" by simp
  have c3: "set (sort ?copied) = {f \<in> set found. \<not> copy_fails e n f}"
    by (auto simp: copies_ok_def)
  have c4: "\<forall>f\<in>set ?copied. f \<noteq> ''contents'' \<longrightarrow> ?pk f = Some (Bitstream f)"
    by (simp add: add_bitstreams_apply)
  have c5: "\<forall>f. f \<notin> set ?copied \<and> f \<noteq> ''contents'' \<and> f \<noteq> ''dublin_core.xml'' \<longrightarrow>
          ?pk f = package_of (out_tree st) n f"
    by (simp add: add_bitstreams_apply)
  have c6: "(found = [] \<or> (\<forall>f\<in>set found. copy_fails e n f)) \<longrightarrow> ?pk ''contents'' = Some (Contents [])"
    by (auto simp: copies_ok_def)
  from f o c1 c2 c3 c4 c5 c6 show ?thesis by blast
qed

theorem manifest_lists_copied_files_witness:
  "fst (process_record env_copy_fault file_columns (detect_filename_columns file_columns) 1
          row_three_files initial_state) = Inr () \<and>
   (\<exists>pk. out_tree (snd (process_record env_copy_fault file_columns
                           (detect_filename_columns file_columns) 1 row_three_files initial_state)) 1
            = Some pk \<and>
         pk ''contents'' = Some (Contents [''a.pdf'', ''b.pdf'']) \<and>
         pk ''a.pdf'' = Some (Bitstream ''a.pdf'') \<and> pk ''b.pdf'' = Some (Bitstream ''b.pdf'') \<and>
         pk ''c.pdf'' = None)"
proof -
  let ?fc = "detect_filename_columns file_columns"
  have g: "gather_filenames ?fc file_columns row_three_files = [''b.pdf'', ''a.pdf'', ''c.pdf'']"
    by code_simp
  have fd: "files_dir env_copy_fault = Some [''b.pdf'', ''a.pdf'', ''c.pdf'']"
    by (simp add: env_copy_fault_def)
  have f: "find_files_for_item [''b.pdf'', ''a.pdf'', ''c.pdf''] (Some [''b.pdf'', ''a.pdf'', ''c.pdf''])
           = Inr [''b.pdf'', ''a.pdf'', ''c.pdf'']"
    by code_simp
  have ck: "copies_ok env_copy_fault k [''b.pdf'', ''a.pdf'', ''c.pdf''] = [''b.pdf'', ''a.pdf'']" for k
    by (simp add: copies_ok_def env_copy_fault_def)
  have so: "sort [''b.pdf'', ''a.pdf''] = [''a.pdf'', ''b.pdf'']" by code_simp
  have h: "fst (process_record env_copy_fault file_columns ?fc 1 row_three_files initial_state) = Inr ()"
    by (simp add: process_record_eq g fd f Let_def) (simp add: env_copy_fault_def)
  from manifest_lists_copied_files[OF h] obtain found pk where
    r: "find_files_for_item (gather_filenames ?fc file_columns row_three_files)
          (files_dir env_copy_fault) = Inr found"
       "out_tree (snd (process_record env_copy_fault file_columns ?fc 1 row_three_files initial_state)) 1
          = Some pk"
       "pk ''contents'' = Some (Contents (sort (copies_ok env_copy_fault 1 found)))"
       "\<forall>f\<in>set (copies_ok env_copy_fault 1 found). f \<noteq> ''contents'' \<longrightarrow> pk f = Some (Bitstream f)"
       "\<forall>f. f \<notin> set (copies_ok env_copy_fault 1 found) \<and> f \<noteq> ''contents'' \<and> f \<noteq> ''dublin_core.xml'' \<longrightarrow>
          pk f = package_of (out_tree initial_state) 1 f"
    by blast
  from r(1) have fo: "found = [''b.pdf'', ''a.pdf'', ''c.pdf'']" by (simp add: g fd f)
  have m: "pk ''contents'' = Some (Contents [''a.pdf'', ''b.pdf''])"
    using r(3) by (simp add: fo ck so)
  have a: "pk ''a.pdf'' = Some (Bitstream ''a.pdf'')" using r(4) by (simp add: fo ck)
  have b: "pk ''b.pdf'' = Some (Bitstream ''b.pdf'')" using r(4) by (simp add: fo ck)
  have c: "pk ''c.pdf'' = None"
    using r(5) by (simp add: fo ck package_of_def initial_state_def)
  from h r(2) m a b c show ?thesis by blast
qed

section \<open>Verification: file association\<close>

text \<open>
  Claim C1 says that a token contributes at most one resolved name, the strategies
  stopping at the first success. The code evaluated at the token \<open>photo\<close> and a directory
  holding \<open>PHOTO\<close> and \<open>photo.jpg\<close>: strategy 2 appends \<open>PHOTO\<close>, only the inner loop is
  left, and strategy 3 appends \<open>photo.jpg\<close> as well.
\<close>

theorem token_resolved_twice:
  "find_files_for_item [''photo''] (Some [''PHOTO'', ''photo.jpg'']) = Inr [''PHOTO'', ''photo.jpg'']"
  by code_simp

text \<open>
  Claim C2 says that a token resolved by any strategy is never reported as missing. The
  code evaluated at the token \<open>Photo.JPG\<close> and a directory holding \<open>photo.jpg\<close>: the
  file is found by strategy 2, copied and listed in the manifest, and the token is
  logged and counted as missing, the difference being taken between the tokens and the
  resolved names.
\<close>

theorem resolved_token_reported_missing:
  "find_files_for_item (gather_filenames (detect_filename_columns file_columns) file_columns row_photo_upper)
     (Some [''photo.jpg'']) = Inr [''photo.jpg''] \<and>
   missing_log (run_main (no_faults (Some [''photo.jpg''])) file_columns [row_photo_upper])
     = [(1, ''Photo.JPG'')] \<and>
   total_missing_files (run_main (no_faults (Some [''photo.jpg''])) file_columns [row_photo_upper]) = 1 \<and>
   total_files_copied (run_main (no_faults (Some [''photo.jpg''])) file_columns [row_photo_upper]) = 1 \<and>
   (\<exists>pk. out_tree (run_main (no_faults (Some [''photo.jpg''])) file_columns [row_photo_upper]) 1 = Some pk \<and>
         pk ''photo.jpg'' = Some (Bitstream ''photo.jpg'') \<and>
         pk ''contents'' = Some (Contents [''photo.jpg'']))"
proof -
  let ?fc = "detect_filename_columns file_columns"
  let ?e = "no_faults (Some [''photo.jpg''])"
  have g: "gather_filenames ?fc file_columns row_photo_upper = [''Photo.JPG'']" by code_simp
  have f: "find_files_for_item [''Photo.JPG''] (Some [''photo.jpg'']) = Inr [''photo.jpg'']"
    by code_simp
  have m: "missing_files_of [''Photo.JPG''] [''photo.jpg''] = [''Photo.JPG'']" by code_simp
  have ck: "copies_ok ?e k [''photo.jpg''] = [''photo.jpg'']" for k
    by (simp add: copies_ok_def no_faults_def)
  have nf: "\<not> mkdir_fails ?e k" "\<not> xml_write_fails ?e k" "\<not> contents_write_fails ?e k"
    "files_dir ?e = Some [''photo.jpg'']" for k
    by (simp_all add: no_faults_def)
  let ?st1 = "initial_state\<lparr>total_records := total_records initial_state + 1\<rparr>"
  have t: "total_records ?st1 = 1" by (simp add: initial_state_def)
  obtain st2 where p: "process_record ?e file_columns ?fc (total_records ?st1) row_photo_upper ?st1 = (Inr (), st2)"
    and l: "missing_log st2 = [(1, ''Photo.JPG'')]"
    and tm: "total_missing_files st2 = 1" and tc: "total_files_copied st2 = 1"
    and o: "out_tree st2 1 = Some ((add_bitstreams [''photo.jpg'']
               ((package_of (out_tree ?st1) 1)(''dublin_core.xml'' \<mapsto>
                   DublinCore (write_dc_xml (map Some file_columns) row_photo_upper))))
              (''contents'' \<mapsto> Contents [''photo.jpg'']))"
    by (simp add: process_record_eq g f m ck nf Let_def initial_state_def)
  have r: "run_main ?e file_columns [row_photo_upper] = st2"
    by (simp only: run_main_def main_loop.simps Let_def p prod.case sum.case)
  show ?thesis
    unfolding r using l tm tc o by (simp add: g f add_bitstreams_apply)
qed

section \<open>Verification: errors at the record boundary\<close>

text \<open>
  Claim C8. Whatever the records do, the loop visits every one of them; each record whose
  processing raises is logged and counted once, in order, and the loop goes on with the
  next record. Nothing a record has put into the output tree by the time it ends, raised
  or not, is removed later: every directory and file of that state is in the final tree.
\<close>

theorem record_errors_caught_and_counted:
  "total_records (main_loop e columns filename_cols rows st) = total_records st + length rows \<and>
   error_log (main_loop e columns filename_cols rows st) =
     error_log st @ failed_records e columns filename_cols (total_records st) rows \<and>
   error_count (main_loop e columns filename_cols rows st) =
     error_count st + length (failed_records e columns filename_cols (total_records st) rows) \<and>
   (rows = pre @ row # post \<longrightarrow>
      persists (out_tree (state_after_record e columns filename_cols pre row st))
               (out_tree (main_loop e columns filename_cols rows st)))"
  using main_loop_total_records[of e columns filename_cols rows st]
        main_loop_error_log[of e columns filename_cols rows st]
        main_loop_error_count[of e columns filename_cols rows st]
        partial_state_persists[of rows pre row post e columns filename_cols st]
  by simp

theorem record_errors_caught_and_counted_witness:
  "total_records (main_loop (no_faults None) file_columns (detect_filename_columns file_columns)
      [row_photo_upper, row_no_file] initial_state) = 2 \<and>
   error_log (main_loop (no_faults None) file_columns (detect_filename_columns file_columns)
      [row_photo_upper, row_no_file] initial_state) = [1] \<and>
   error_count (main_loop (no_faults None) file_columns (detect_filename_columns file_columns)
      [row_photo_upper, row_no_file] initial_state) = 1 \<and>
   (\<exists>pk. out_tree (main_loop (no_faults None) file_columns (detect_filename_columns file_columns)
      [row_photo_upper, row_no_file] initial_state) 1 = Some pk \<and>
      ''dublin_core.xml'' \<in> dom pk)"
proof -
  let ?e = "no_faults None"
  let ?fc = "detect_filename_columns file_columns"
  let ?rows = "[row_photo_upper, row_no_file]"
  let ?final = "main_loop ?e file_columns ?fc ?rows initial_state"
  note T = record_errors_caught_and_counted[of ?e file_columns ?fc ?rows initial_state
             "[]" row_photo_upper "[row_no_file]"]
  have g1: "gather_filenames ?fc file_columns row_photo_upper = [''Photo.JPG'']" by code_simp
  have g2: "gather_filenames ?fc file_columns row_no_file = []" by code_simp
  have f1: "find_files_for_item [''Photo.JPG''] None = Inl FileNotFoundError" by code_simp
  have f2: "find_files_for_item [] None = Inr []" by code_simp
  have nf: "\<not> mkdir_fails ?e k" "\<not> xml_write_fails ?e k" "\<not> contents_write_fails ?e k"
    "files_dir ?e = None" for k
    by (simp_all add: no_faults_def)
  have r1: "record_raises ?e file_columns ?fc k row_photo_upper" for k
    by (simp add: record_raises_def process_record_eq nf g1 f1 Let_def)
  have r2: "\<not> record_raises ?e file_columns ?fc k row_no_file" for k
    by (simp add: record_raises_def process_record_eq nf g2 f2 Let_def)
  have t0: "total_records initial_state = 0" "error_log initial_state = []"
    "error_count initial_state = 0" by (simp_all add: initial_state_def)
  have fr: "failed_records ?e file_columns ?fc 0 ?rows = [1]"
    by (simp add: r1 r2)
  have a: "total_records ?final = 2"
    using T[THEN conjunct1] by (simp add: t0 del: main_loop.simps)
  have b: "error_log ?final = [1]"
    using T[THEN conjunct2, THEN conjunct1] by (simp only: t0 fr append_Nil)
  have c: "error_count ?final = 1"
    using T[THEN conjunct2, THEN conjunct2, THEN conjunct1] by (simp only: t0 fr) simp
  have p: "persists (out_tree (state_after_record ?e file_columns ?fc [] row_photo_upper initial_state))
             (out_tree ?final)"
    using T[THEN conjunct2, THEN conjunct2, THEN conjunct2] by (simp only: append_Nil simp_thms)
  have s: "out_tree (state_after_record ?e file_columns ?fc [] row_photo_upper initial_state) 1 =
        Some (Map.empty(''dublin_core.xml'' \<mapsto>
                DublinCore (write_dc_xml (map Some file_columns) row_photo_upper)))"
    by (simp add: state_after_record_def process_record_eq nf g1 f1 Let_def t0 package_of_def
          initial_state_def)
  from p s obtain pk where pk: "out_tree ?final 1 = Some pk"
    "dom (Map.empty(''dublin_core.xml'' \<mapsto>
                DublinCore (write_dc_xml (map Some file_columns) row_photo_upper))) \<subseteq> dom pk"
    unfolding persists_def by blast
  then have d: "''dublin_core.xml'' \<in> dom pk" by simp
  from a b c pk(1) d show ?thesis by blast
qed

section \<open>Verification: a missing bitstream directory\<close>

text \<open>
  Claim C10. When the bitstream directory does not exist (and creating the package
  directory and writing its two files succeed), every record with a non-empty token set
  raises \<open>FileNotFoundError\<close> in the file association, is logged and counted as failed,
  and its package directory holds the metadata document and nothing else; a record with
  no token completes, with an empty manifest beside the metadata document.
\<close>

theorem missing_bitstream_dir_records:
  "files_dir e = None \<and>
   (\<forall>n. \<not> mkdir_fails e n \<and> \<not> xml_write_fails e n \<and> \<not> contents_write_fails e n) \<longrightarrow>
     error_count (run_main e columns rows) =
       length (filter (\<lambda>row. gather_filenames (detect_filename_columns columns) columns row \<noteq> []) rows) \<and>
     (\<forall>k<length rows.
        (gather_filenames (detect_filename_columns columns) columns (rows ! k) \<noteq> [] \<longrightarrow>
           find_files_for_item (gather_filenames (detect_filename_columns columns) columns (rows ! k))
             (files_dir e) = Inl FileNotFoundError \<and>
           fst (process_record e columns (detect_filename_columns columns) (Suc k) (rows ! k) st)
             = Inl FileNotFoundError \<and>
           Suc k \<in> set (error_log (run_main e columns rows)) \<and>
           out_tree (run_main e columns rows) (Suc k) =
             Some [''dublin_core.xml'' \<mapsto> DublinCore (write_dc_xml (map Some columns) (rows ! k))]) \<and>
        (gather_filenames (detect_filename_columns columns) columns (rows ! k) = [] \<longrightarrow>
           fst (process_record e columns (detect_filename_columns columns) (Suc k) (rows ! k) st)
             = Inr () \<and>
           Suc k \<notin> set (error_log (run_main e columns rows)) \<and>
           out_tree (run_main e columns rows) (Suc k) =
             Some [''dublin_core.xml'' \<mapsto> DublinCore (write_dc_xml (map Some columns) (rows ! k)),
                   ''contents'' \<mapsto> Contents []]))"
proof (intro impI)
  let ?fc = "detect_filename_columns columns"
  assume a: "files_dir e = None \<and>
   (\<forall>n. \<not> mkdir_fails e n \<and> \<not> xml_write_fails e n \<and> \<not> contents_write_fails e n)"
  then have e: "files_dir e = None"
    "\<forall>n. \<not> mkdir_fails e n \<and> \<not> xml_write_fails e n \<and> \<not> contents_write_fails e n"
    by simp_all
  have t0: "total_records initial_state = 0" "error_count initial_state = 0"
    "error_log initial_state = []" by (simp_all add: initial_state_def)
  have fresh: "\<forall>m>total_records initial_state. out_tree initial_state m = None"
    by (simp add: initial_state_def)
  have c: "error_count (run_main e columns rows) =
       length (filter (\<lambda>row. gather_filenames ?fc columns row \<noteq> []) rows)"
    unfolding run_main_def
    by (simp only: main_loop_error_count failed_records_missing_dir_length[OF e] t0 add_0)
  have l: "error_log (run_main e columns rows) = failed_records e columns ?fc 0 rows"
    unfolding run_main_def by (simp only: main_loop_error_log t0 append_Nil)
  have r: "\<forall>k<length rows.
        (gather_filenames ?fc columns (rows ! k) \<noteq> [] \<longrightarrow>
           find_files_for_item (gather_filenames ?fc columns (rows ! k)) (files_dir e)
             = Inl FileNotFoundError \<and>
           fst (process_record e columns ?fc (Suc k) (rows ! k) st) = Inl FileNotFoundError \<and>
           Suc k \<in> set (error_log (run_main e columns rows)) \<and>
           out_tree (run_main e columns rows) (Suc k) =
             Some [''dublin_core.xml'' \<mapsto> DublinCore (write_dc_xml (map Some columns) (rows ! k))]) \<and>
        (gather_filenames ?fc columns (rows ! k) = [] \<longrightarrow>
           fst (process_record e columns ?fc (Suc k) (rows ! k) st) = Inr () \<and>
           Suc k \<notin> set (error_log (run_main e columns rows)) \<and>
           out_tree (run_main e columns rows) (Suc k) =
             Some [''dublin_core.xml'' \<mapsto> DublinCore (write_dc_xml (map Some columns) (rows ! k)),
                   ''contents'' \<mapsto> Contents []])"
  proof (intro allI impI)
    fix k assume k: "k < length rows"
    have nf: "\<not> mkdir_fails e (Suc k)" "\<not> xml_write_fails e (Suc k)"
      "\<not> contents_write_fails e (Suc k)" using e(2) by simp_all
    note pr = process_record_missing_dir[OF e(1) nf, of columns ?fc "rows ! k" st]
    from main_loop_missing_dir_package[OF e fresh k, of columns ?fc]
    have pk: "out_tree (run_main e columns rows) (Suc k) =
       Some (if gather_filenames ?fc columns (rows ! k) \<noteq> []
             then [''dublin_core.xml'' \<mapsto> DublinCore (write_dc_xml (map Some columns) (rows ! k))]
             else [''dublin_core.xml'' \<mapsto> DublinCore (write_dc_xml (map Some columns) (rows ! k)),
                   ''contents'' \<mapsto> Contents []])"
      by (simp add: run_main_def t0)
    have mem: "Suc k \<in> set (error_log (run_main e columns rows)) \<longleftrightarrow>
               gather_filenames ?fc columns (rows ! k) \<noteq> []"
      unfolding l failed_records_member using k
      by (auto simp: record_raises_missing_dir[OF e])
    show "(gather_filenames ?fc columns (rows ! k) \<noteq> [] \<longrightarrow>
           find_files_for_item (gather_filenames ?fc columns (rows ! k)) (files_dir e)
             = Inl FileNotFoundError \<and>
           fst (process_record e columns ?fc (Suc k) (rows ! k) st) = Inl FileNotFoundError \<and>
           Suc k \<in> set (error_log (run_main e columns rows)) \<and>
           out_tree (run_main e columns rows) (Suc k) =
             Some [''dublin_core.xml'' \<mapsto> DublinCore (write_dc_xml (map Some columns) (rows ! k))]) \<and>
        (gather_filenames ?fc columns (rows ! k) = [] \<longrightarrow>
           fst (process_record e columns ?fc (Suc k) (rows ! k) st) = Inr () \<and>
           Suc k \<notin> set (error_log (run_main e columns rows)) \<and>
           out_tree (run_main e columns rows) (Suc k) =
             Some [''dublin_core.xml'' \<mapsto> DublinCore (write_dc_xml (map Some columns) (rows ! k)),
                   ''contents'' \<mapsto> Contents []])"
      using pr pk mem by (simp add: e(1) find_files_missing_dir)
  qed
  from c r show "error_count (run_main e columns rows) =
       length (filter (\<lambda>row. gather_filenames ?fc columns row \<noteq> []) rows) \<and>
     (\<forall>k<length rows.
        (gather_filenames ?fc columns (rows ! k) \<noteq> [] \<longrightarrow>
           find_files_for_item (gather_filenames ?fc columns (rows ! k)) (files_dir e)
             = Inl FileNotFoundError \<and>
           fst (process_record e columns ?fc (Suc k) (rows ! k) st) = Inl FileNotFoundError \<and>
           Suc k \<in> set (error_log (run_main e columns rows)) \<and>
           out_tree (run_main e columns rows) (Suc k) =
             Some [''dublin_core.xml'' \<mapsto> DublinCore (write_dc_xml (map Some columns) (rows ! k))]) \<and>
        (gather_filenames ?fc columns (rows ! k) = [] \<longrightarrow>
           fst (process_record e columns ?fc (Suc k) (rows ! k) st) = Inr () \<and>
           Suc k \<notin> set (error_log (run_main e columns rows)) \<and>
           out_tree (run_main e columns rows) (Suc k) =
             Some [''dublin_core.xml'' \<mapsto> DublinCore (write_dc_xml (map Some columns) (rows ! k)),
                   ''contents'' \<mapsto> Contents []]))"
    by (rule conjI)
qed

theorem missing_bitstream_dir_records_witness:
  "files_dir (no_faults None) = None \<and>
   error_count (run_main (no_faults None) file_columns [row_photo_upper, row_no_file]) = 1 \<and>
   1 \<in> set (error_log (run_main (no_faults None) file_columns [row_photo_upper, row_no_file])) \<and>
   2 \<notin> set (error_log (run_main (no_faults None) file_columns [row_photo_upper, row_no_file])) \<and>
   out_tree (run_main (no_faults None) file_columns [row_photo_upper, row_no_file]) 1 =
     Some [''dublin_core.xml'' \<mapsto> DublinCore (write_dc_xml (map Some file_columns) row_photo_upper)] \<and>
   out_tree (run_main (no_faults None) file_columns [row_photo_upper, row_no_file]) 2 =
     Some [''dublin_core.xml'' \<mapsto> DublinCore (write_dc_xml (map Some file_columns) row_no_file),
           ''contents'' \<mapsto> Contents []]"
proof -
  let ?e = "no_faults None"
  let ?fc = "detect_filename_columns file_columns"
  let ?rows = "[row_photo_upper, row_no_file]"
  have h: "files_dir ?e = None \<and>
           (\<forall>n. \<not> mkdir_fails ?e n \<and> \<not> xml_write_fails ?e n \<and> \<not> contents_write_fails ?e n)"
    by (simp add: no_faults_def)
  have g1: "gather_filenames ?fc file_columns row_photo_upper \<noteq> []" by code_simp
  have g2: "gather_filenames ?fc file_columns row_no_file = []" by code_simp
  note T = missing_bitstream_dir_records[of ?e file_columns ?rows initial_state, THEN mp, OF h]
  have k0: "0 < length ?rows" and k1: "1 < length ?rows" by simp_all
  have n0: "?rows ! 0 = row_photo_upper" and n1: "?rows ! 1 = row_no_file" by simp_all
  have c: "error_count (run_main ?e file_columns ?rows) = 1"
    using T[THEN conjunct1] g1 g2 by simp
  note A = T[THEN conjunct2, THEN spec, of 0, THEN mp, OF k0, THEN conjunct1, THEN mp,
             unfolded n0, OF g1]
  note B = T[THEN conjunct2, THEN spec, of 1, THEN mp, OF k1, THEN conjunct2, THEN mp,
             unfolded n1, OF g2]
  from A have a1: "1 \<in> set (error_log (run_main ?e file_columns ?rows))"
    and a2: "out_tree (run_main ?e file_columns ?rows) 1 =
     Some [''dublin_core.xml'' \<mapsto> DublinCore (write_dc_xml (map Some file_columns) row_photo_upper)]"
    by simp_all
  have two: "Suc 1 = 2" by simp
  from B have b1: "2 \<notin> set (error_log (run_main ?e file_columns ?rows))"
    and b2: "out_tree (run_main ?e file_columns ?rows) 2 =
     Some [''dublin_core.xml'' \<mapsto> DublinCore (write_dc_xml (map Some file_columns) row_no_file),
           ''contents'' \<mapsto> Contents []]"
    unfolding two by blast+
  from h c a1 a2 b1 b2 show ?thesis by blast
qed

section \<open>Verification: the validator\<close>

text \<open>
  Claim C6 says that no exception escapes the check of one package, whatever the manifest
  holds, blank lines included. The code evaluated at a package with a complete metadata
  document and a manifest whose second line is blank: \<^verbatim>\<open>line.strip().split()\<close> is the
  empty list there and its index 0 raises \<^verbatim>\<open>IndexError\<close>, which nothing in
  \<^verbatim>\<open>validate_item\<close> catches.
\<close>

theorem blank_manifest_line_raises:
  "validate_item (1::nat) package_blank_line [] = Inl IndexError"
  by code_simp

end
